theory Spec2Isabelle
  imports Complex_Main "HOL-Library.AList"
begin

section \<open>The pedigree graph\<close>

text \<open>
  The class \<open>Genealogical\<close> wraps a \<open>networkx.DiGraph\<close>. Node identifiers are Python
  integers. The graph keeps its nodes (with one attribute dictionary each) in insertion
  order, and for every node the dictionaries of its successors and of its predecessors,
  again in insertion order. Both adjacency orders are the order in which the edges were
  added, so the model keeps one list of edges in insertion order and reads the two
  adjacency lists off it.
\<close>

type_synonym node = int

datatype error = IndexError | TypeError | KeyError | StopIteration | NodeNotFound | NetworkXError

record 'v graph =
  graph_nodes :: "(node \<times> (string \<times> 'v) list) list"
  graph_edges :: "(node \<times> node) list"

definition nodes :: "'v graph \<Rightarrow> node list" where
  "nodes g = map fst (graph_nodes g)"

definition n_individuals :: "'v graph \<Rightarrow> nat" where
  "n_individuals g = length (nodes g)"

text \<open>
  What networkx guarantees of every \<open>DiGraph\<close>: a node is stored once, an edge is stored
  once, and both ends of an edge are nodes.
\<close>

definition wf_graph :: "'v graph \<Rightarrow> bool" where
  "wf_graph g \<longleftrightarrow>
     distinct (nodes g) \<and> distinct (graph_edges g) \<and>
     list_all (\<lambda>e. fst e \<in> set (nodes g) \<and> snd e \<in> set (nodes g)) (graph_edges g)"

text \<open>The keys of \<open>G._succ[n]\<close> and of \<open>G._pred[n]\<close>, for a node of the graph.\<close>

definition adj_succ :: "'v graph \<Rightarrow> node \<Rightarrow> node list" where
  "adj_succ g n = map snd (filter (\<lambda>e. fst e = n) (graph_edges g))"

definition adj_pred :: "'v graph \<Rightarrow> node \<Rightarrow> node list" where
  "adj_pred g n = map fst (filter (\<lambda>e. snd e = n) (graph_edges g))"

text \<open>
  The successors of a node in \<open>G.reverse()\<close>. The reversed copy is filled from
  \<open>G.edges\<close>, which runs through the nodes in their order, so the predecessors of \<open>n\<close>
  come in the order of the nodes.
\<close>

definition adj_reverse :: "'v graph \<Rightarrow> node \<Rightarrow> node list" where
  "adj_reverse g n = filter (\<lambda>u. (u, n) \<in> set (graph_edges g)) (nodes g)"

text \<open>
  \<open>G.successors(n)\<close> and \<open>G.predecessors(n)\<close> return an iterator over those keys and raise
  \<open>NetworkXError\<close> for a node that is not in the graph.
\<close>

definition graph_successors :: "'v graph \<Rightarrow> node \<Rightarrow> error + node list" where
  "graph_successors g n = (if n \<in> set (nodes g) then Inr (adj_succ g n) else Inl NetworkXError)"

definition graph_predecessors :: "'v graph \<Rightarrow> node \<Rightarrow> error + node list" where
  "graph_predecessors g n = (if n \<in> set (nodes g) then Inr (adj_pred g n) else Inl NetworkXError)"

text \<open>
  \<open>attributes\<close>: \<open>list(list(self.graph.nodes(data=True))[0][1].keys())\<close>. Indexing the
  empty list raises \<open>IndexError\<close>.
\<close>

definition attributes :: "'v graph \<Rightarrow> error + string list" where
  "attributes g = (case graph_nodes g of [] \<Rightarrow> Inl IndexError | nd # _ \<Rightarrow> Inr (map fst (snd nd)))"

section \<open>Python built-ins used by the class\<close>

text \<open>
  \<open>any(it)\<close> is true when some element of the iterable is truthy; the integer \<open>0\<close> is
  falsy, every other integer is truthy.
\<close>

definition truthy :: "node \<Rightarrow> bool" where
  "truthy n \<longleftrightarrow> n \<noteq> 0"

definition py_any :: "node list \<Rightarrow> bool" where
  "py_any xs = list_ex truthy xs"

text \<open>
  \<open>len(it)\<close> of an iterator: the adjacency iterators of networkx (the ones the class
  also passes to \<open>next\<close> and \<open>any\<close>) have no \<open>__len__\<close>, so the call raises \<open>TypeError\<close>
  whatever the iterator holds.
\<close>

definition len_iterator :: "node list \<Rightarrow> error + nat" where
  "len_iterator it = Inl TypeError"

text \<open>
  The keys of a dictionary to which the elements of a sequence are added in turn: every
  element once, at the place of its first occurrence.
\<close>

definition first_seen :: "node list \<Rightarrow> node list" where
  "first_seen xs = rev (remdups (rev xs))"

section \<open>Shortest path lengths with a cutoff\<close>

text \<open>
  \<open>nx.single_source_shortest_path_length(G, source, cutoff)\<close>: raises \<open>NodeNotFound\<close>
  when the source is not in \<open>G\<close>; otherwise a breadth-first search by levels, which
  records every node with the level at which it is first seen and stops after level
  \<open>cutoff\<close>. The dictionary it returns is kept as the list of its items; inside one
  level the nodes come in the order in which they are first met.
\<close>

function sssp_levels ::
  "(node \<Rightarrow> node list) \<Rightarrow> int \<Rightarrow> int \<Rightarrow> (node \<times> int) list \<Rightarrow> node list \<Rightarrow> (node \<times> int) list"
where
  "sssp_levels adj cutoff level seen nextlevel =
     (if nextlevel \<noteq> [] \<and> level \<le> cutoff then
        let found = first_seen (filter (\<lambda>v. v \<notin> fst ` set seen) nextlevel)
        in sssp_levels adj cutoff (level + 1) (seen @ map (\<lambda>v. (v, level)) found)
             (concat (map adj found))
      else seen)"
  by pat_completeness auto
termination
  by (relation "measure (\<lambda>(adj, cutoff, level, seen, nextlevel). nat (cutoff + 1 - level))") auto

declare sssp_levels.simps [simp del]

definition shortest_path_length ::
  "node list \<Rightarrow> (node \<Rightarrow> node list) \<Rightarrow> node \<Rightarrow> int \<Rightarrow> error + (node \<times> int) list"
where
  "shortest_path_length ns adj source cutoff =
     (if source \<in> set ns then Inr (sssp_levels adj cutoff 0 [] [source]) else Inl NodeNotFound)"

section \<open>Cohort queries\<close>

text \<open>
  The loop of \<open>predecessors\<close> over the items of the distance dictionary. The \<open>elif\<close> is
  evaluated only when the distance differs from \<open>k\<close>; with \<open>include_founders\<close> set it
  calls \<open>len\<close> on the iterator \<open>self.graph.predecessors(nn)\<close>.
\<close>

fun pred_loop ::
  "'v graph \<Rightarrow> int \<Rightarrow> bool \<Rightarrow> (node \<times> int) list \<Rightarrow> node list \<Rightarrow> error + node list"
where
  "pred_loop g k include_founders [] pred_list = Inr pred_list"
| "pred_loop g k include_founders ((nn, dist_nn) # items) pred_list =
     (if dist_nn = k then pred_loop g k include_founders items (pred_list @ [nn])
      else if include_founders then
        (case graph_predecessors g nn of
           Inl e \<Rightarrow> Inl e
         | Inr it \<Rightarrow>
             (case len_iterator it of
                Inl e \<Rightarrow> Inl e
              | Inr l \<Rightarrow>
                  if l = 0 then pred_loop g k include_founders items (pred_list @ [nn])
                  else pred_loop g k include_founders items pred_list))
      else pred_loop g k include_founders items pred_list)"

definition predecessors :: "'v graph \<Rightarrow> node \<Rightarrow> int \<Rightarrow> bool \<Rightarrow> bool \<Rightarrow> error + node list" where
  "predecessors g n k include_intermediates include_founders =
     (case shortest_path_length (nodes g) (adj_reverse g) n k of
        Inl e \<Rightarrow> Inl e
      | Inr preds \<Rightarrow>
          if include_intermediates then Inr (map fst preds)
          else pred_loop g k include_founders preds [])"

fun succ_loop ::
  "'v graph \<Rightarrow> int \<Rightarrow> bool \<Rightarrow> (node \<times> int) list \<Rightarrow> node list \<Rightarrow> error + node list"
where
  "succ_loop g k include_leaves [] succ_list = Inr succ_list"
| "succ_loop g k include_leaves ((nn, dist_nn) # items) succ_list =
     (if dist_nn = k then succ_loop g k include_leaves items (succ_list @ [nn])
      else if include_leaves then
        (case graph_successors g nn of
           Inl e \<Rightarrow> Inl e
         | Inr it \<Rightarrow>
             (case len_iterator it of
                Inl e \<Rightarrow> Inl e
              | Inr l \<Rightarrow>
                  if l = 0 then succ_loop g k include_leaves items (succ_list @ [nn])
                  else succ_loop g k include_leaves items succ_list))
      else succ_loop g k include_leaves items succ_list)"

definition successors :: "'v graph \<Rightarrow> node \<Rightarrow> int \<Rightarrow> bool \<Rightarrow> bool \<Rightarrow> error + node list" where
  "successors g n k include_intermediates include_leaves =
     (case shortest_path_length (nodes g) (adj_succ g) n k of
        Inl e \<Rightarrow> Inl e
      | Inr succs \<Rightarrow>
          if include_intermediates then Inr (map fst succs)
          else succ_loop g k include_leaves succs [])"

text \<open>
  \<open>founders_view\<close> and \<open>probands_view\<close> keep the nodes \<open>n\<close> with
  \<open>not any(G.predecessors(n))\<close>, respectively \<open>not any(G.successors(n))\<close>.
\<close>

definition founders :: "'v graph \<Rightarrow> node list" where
  "founders g = filter (\<lambda>n. \<not> py_any (adj_pred g n)) (nodes g)"

definition probands :: "'v graph \<Rightarrow> node list" where
  "probands g = filter (\<lambda>n. \<not> py_any (adj_succ g n)) (nodes g)"

section \<open>The traversal engine\<close>

text \<open>
  One pass of the two nested \<open>for\<close> loops of \<open>trace_edges\<close> over the current generation,
  listed in the order in which the set is iterated: the pairs yielded and the elements
  added to \<open>next_gen\<close>. \<open>neighbors(node)\<close> raises for a node that is not in the graph.
\<close>

fun trace_gen ::
  "(node \<Rightarrow> error + node list) \<Rightarrow> node list \<Rightarrow> error + ((node \<times> node) list \<times> node list)"
where
  "trace_gen neighbors [] = Inr ([], [])"
| "trace_gen neighbors (nd # rest) =
     (case neighbors nd of
        Inl e \<Rightarrow> Inl e
      | Inr nbs \<Rightarrow>
          (case trace_gen neighbors rest of
             Inl e \<Rightarrow> Inl e
           | Inr (ys, next_gen) \<Rightarrow> Inr (map (Pair nd) nbs @ ys, nbs @ next_gen)))"

text \<open>
  The \<open>while curr_gen\<close> loop. \<open>curr_gen\<close> is a Python set; the model keeps the sequence of
  elements added to it and takes as a parameter the order \<open>iter i xs\<close> in which the set
  built from \<open>xs\<close> is iterated in round \<open>i\<close>. Python fixes only that every element comes
  exactly once (\<open>set_iteration\<close> below). The generator may run forever: the result is
  \<open>None\<close> then. A raised error ends the sequence; every consumer in the class passes it on.
\<close>

definition set_iteration :: "(nat \<Rightarrow> node list \<Rightarrow> node list) \<Rightarrow> bool" where
  "set_iteration iter \<longleftrightarrow> (\<forall>i xs. set (iter i xs) = set xs \<and> distinct (iter i xs))"

partial_function (option) trace_loop ::
  "(nat \<Rightarrow> node list \<Rightarrow> node list) \<Rightarrow> (node \<Rightarrow> error + node list) \<Rightarrow> nat \<Rightarrow> node list \<Rightarrow>
   (error + (node \<times> node) list) option"
where
  "trace_loop iter neighbors i curr_gen =
     (if curr_gen = [] then Some (Inr [])
      else
        (case trace_gen neighbors (iter i curr_gen) of
           Inl e \<Rightarrow> Some (Inl e)
         | Inr (ys, next_gen) \<Rightarrow>
             Option.bind (trace_loop iter neighbors (Suc i) next_gen)
               (\<lambda>r. Some (case r of Inl e \<Rightarrow> Inl e | Inr zs \<Rightarrow> Inr (ys @ zs)))))"

declare trace_loop.simps [code]

text \<open>
  \<open>neighbors = self.graph.successors if forward else self.graph.predecessors\<close>, and the
  default sources: the nodes of \<open>founders_view\<close> or of \<open>probands_view\<close>.
\<close>

definition neighbors :: "'v graph \<Rightarrow> bool \<Rightarrow> node \<Rightarrow> error + node list" where
  "neighbors g forward = (if forward then graph_successors g else graph_predecessors g)"

definition start_nodes :: "'v graph \<Rightarrow> bool \<Rightarrow> node list option \<Rightarrow> node list" where
  "start_nodes g forward source =
     (case source of
        None \<Rightarrow> if forward then founders g else probands g
      | Some s \<Rightarrow> s)"

definition trace_edges ::
  "(nat \<Rightarrow> node list \<Rightarrow> node list) \<Rightarrow> 'v graph \<Rightarrow> bool \<Rightarrow> node list option \<Rightarrow>
   (error + (node \<times> node) list) option"
where
  "trace_edges iter g forward source =
     trace_loop iter (neighbors g forward) 0 (start_nodes g forward source)"

section \<open>Depth inference\<close>

text \<open>
  \<open>depth\<close> is a \<open>defaultdict(int)\<close>, kept as the list of its items in insertion order.
  Reading a missing key stores the key with the value \<open>0\<close> and returns \<open>0\<close>; an assignment
  overwrites the value in place or appends a new item (\<open>AList.update\<close>).
\<close>

type_synonym depth_dict = "(node \<times> int) list"

definition dd_getitem :: "depth_dict \<Rightarrow> node \<Rightarrow> int \<times> depth_dict" where
  "dd_getitem depth k =
     (case map_of depth k of Some v \<Rightarrow> (v, depth) | None \<Rightarrow> (0, depth @ [(k, 0)]))"

text \<open>The body of the \<open>for node, child in self.trace_edges(...)\<close> loop.\<close>

definition relax :: "node \<times> node \<Rightarrow> depth_dict \<Rightarrow> depth_dict" where
  "relax e depth =
     (case e of (nd, child) \<Rightarrow>
        (case dd_getitem depth nd of (d, depth1) \<Rightarrow>
           (case dd_getitem depth1 child of (c, depth2) \<Rightarrow>
              if c \<le> d then AList.update child (d + 1) depth2 else depth2)))"

definition infer_depth ::
  "(nat \<Rightarrow> node list \<Rightarrow> node list) \<Rightarrow> 'v graph \<Rightarrow> bool \<Rightarrow> (error + depth_dict) option"
where
  "infer_depth iter g forward =
     map_option (\<lambda>r. case r of Inl e \<Rightarrow> Inl e | Inr ys \<Rightarrow> Inr (fold relax ys []))
       (trace_edges iter g forward None)"

text \<open>Reading the returned \<open>defaultdict\<close> at a node: \<open>0\<close> for a key that is not stored.\<close>

definition depth_of :: "depth_dict \<Rightarrow> node \<Rightarrow> int" where
  "depth_of depth n = (case map_of depth n of Some v \<Rightarrow> v | None \<Rightarrow> 0)"

section \<open>Counting paths to targets\<close>

text \<open>
  \<open>Counter.__add__\<close>: the counts are added, and only positive counts are kept; first the
  keys of the left operand, then the keys that only the right operand has.
\<close>

type_synonym counter = "(node \<times> int) list"

definition counter_get :: "counter \<Rightarrow> node \<Rightarrow> int" where
  "counter_get c k = (case map_of c k of Some v \<Rightarrow> v | None \<Rightarrow> 0)"

definition counter_add :: "counter \<Rightarrow> counter \<Rightarrow> counter" where
  "counter_add a b =
     filter (\<lambda>kv. 0 < snd kv) (map (\<lambda>kv. (fst kv, snd kv + counter_get b (fst kv))) a) @
     filter (\<lambda>kv. fst kv \<notin> fst ` set a \<and> 0 < snd kv) b"

text \<open>
  \<open>sum((Counter(pts[suc]) for suc in n_succ), Counter())\<close>: \<open>pts[suc]\<close> raises
  \<open>KeyError\<close> for a successor that has no entry yet.
\<close>

fun sum_counters ::
  "(node \<times> counter) list \<Rightarrow> node list \<Rightarrow> counter \<Rightarrow> error + counter"
where
  "sum_counters pts [] acc = Inr acc"
| "sum_counters pts (suc # rest) acc =
     (case map_of pts suc of
        None \<Rightarrow> Inl KeyError
      | Some c \<Rightarrow> sum_counters pts rest (counter_add acc c))"

text \<open>The \<open>for n in sorted(...)\<close> loop.\<close>

fun pts_loop ::
  "'v graph \<Rightarrow> node list \<Rightarrow> node list \<Rightarrow> (node \<times> counter) list \<Rightarrow>
   error + (node \<times> counter) list"
where
  "pts_loop g target [] pts = Inr pts"
| "pts_loop g target (n # rest) pts =
     (case successors g n 1 False False of
        Inl e \<Rightarrow> Inl e
      | Inr n_succ \<Rightarrow>
          if n \<in> set target then pts_loop g target rest (AList.update n [(n, 1)] pts)
          else if length n_succ = 0 then pts_loop g target rest (AList.update n [] pts)
          else
            (case sum_counters pts n_succ [] of
               Inl e \<Rightarrow> Inl e
             | Inr c \<Rightarrow> pts_loop g target rest (AList.update n c pts)))"

text \<open>\<open>for t in target: del pts[t]\<close>; deleting a missing key raises \<open>KeyError\<close>.\<close>

fun del_targets :: "node list \<Rightarrow> (node \<times> counter) list \<Rightarrow> error + (node \<times> counter) list" where
  "del_targets [] pts = Inr pts"
| "del_targets (t # ts) pts =
     (if t \<in> fst ` set pts then del_targets ts (AList.delete t pts) else Inl KeyError)"

text \<open>
  \<open>sorted(nodes, key=nodes.get, reverse=True)\<close>: the keys by decreasing depth, keys of
  equal depth in their original order.
\<close>

definition sorted_by_depth_desc :: "depth_dict \<Rightarrow> node list" where
  "sorted_by_depth_desc depth = sort_key (\<lambda>n. - depth_of depth n) (map fst depth)"

text \<open>
  An optional argument that is normalised to a list: \<open>None\<close>, a value that is not
  iterable (a single node), or an iterable of nodes.
\<close>

datatype node_arg = Default | Single node | Several "node list"

definition get_num_paths_to_target ::
  "(nat \<Rightarrow> node list \<Rightarrow> node list) \<Rightarrow> 'v graph \<Rightarrow> node_arg \<Rightarrow> bool \<Rightarrow>
   (error + (node \<times> counter) list) option"
where
  "get_num_paths_to_target iter g target include_target =
     (let tgt = (case target of Default \<Rightarrow> probands g | Single t \<Rightarrow> [t] | Several ts \<Rightarrow> ts)
      in map_option
           (\<lambda>r. case r of
                  Inl e \<Rightarrow> Inl e
                | Inr depth \<Rightarrow>
                    (case pts_loop g tgt (sorted_by_depth_desc depth) [] of
                       Inl e \<Rightarrow> Inl e
                     | Inr pts \<Rightarrow>
                         (let pts' = filter (\<lambda>kv. 0 < length (snd kv)) pts
                          in if \<not> include_target then del_targets tgt pts' else Inr pts')))
           (infer_depth iter g True))"

section \<open>Probands under a node\<close>

text \<open>\<open>for ns in base_set: n_set += self.successors(ns)\<close>\<close>

fun gather_successors :: "'v graph \<Rightarrow> node list \<Rightarrow> node list \<Rightarrow> error + node list" where
  "gather_successors g [] n_set = Inr n_set"
| "gather_successors g (ns # rest) n_set =
     (case successors g ns 1 False False of
        Inl e \<Rightarrow> Inl e
      | Inr s \<Rightarrow> gather_successors g rest (n_set @ s))"

text \<open>
  The \<open>while len(n_set) > 0\<close> loop: the head of the list is expanded into its children,
  which are appended, or recorded when it has none, and then removed. On a graph with a
  cycle below the cohort the loop does not end.
\<close>

partial_function (option) expand_loop ::
  "'v graph \<Rightarrow> node list \<Rightarrow> node set \<Rightarrow> (error + node set) option"
where
  "expand_loop g n_set reached =
     (if length n_set > 0 then
        (case successors g (hd n_set) 1 False False of
           Inl e \<Rightarrow> Some (Inl e)
         | Inr nn_children \<Rightarrow>
             if length nn_children > 0 then expand_loop g (tl (n_set @ nn_children)) reached
             else expand_loop g (tl n_set) (insert (hd n_set) reached))
      else Some (Inr reached))"

declare expand_loop.simps [code]

text \<open>The body of \<open>for n in nodes\<close>: the set stored at \<open>ntp[n]\<close>.\<close>

definition probands_under_node :: "'v graph \<Rightarrow> int \<Rightarrow> node \<Rightarrow> (error + node set) option" where
  "probands_under_node g climb_up_step n =
     (case predecessors g n climb_up_step False True of
        Inl e \<Rightarrow> Some (Inl e)
      | Inr base_set \<Rightarrow>
          (case gather_successors g base_set [] of
             Inl e \<Rightarrow> Some (Inl e)
           | Inr n_set \<Rightarrow>
               if length n_set = 0 then Some (Inr {n}) else expand_loop g n_set {}))"

fun probands_under_loop ::
  "'v graph \<Rightarrow> int \<Rightarrow> node list \<Rightarrow> (node \<times> node set) list \<Rightarrow>
   (error + (node \<times> node set) list) option"
where
  "probands_under_loop g climb_up_step [] ntp = Some (Inr ntp)"
| "probands_under_loop g climb_up_step (n # rest) ntp =
     (case probands_under_node g climb_up_step n of
        None \<Rightarrow> None
      | Some (Inl e) \<Rightarrow> Some (Inl e)
      | Some (Inr s) \<Rightarrow> probands_under_loop g climb_up_step rest (AList.update n s ntp))"

definition get_probands_under ::
  "'v graph \<Rightarrow> node_arg \<Rightarrow> int \<Rightarrow> (error + (node \<times> node set) list) option"
where
  "get_probands_under g nds climb_up_step =
     probands_under_loop g climb_up_step
       (case nds of Default \<Rightarrow> nodes g | Single n \<Rightarrow> [n] | Several ns \<Rightarrow> ns) []"

section \<open>The similarity estimator\<close>

text \<open>
  A loop whose body may raise: the first error ends it.
\<close>

fun for_loop :: "'b list \<Rightarrow> ('b \<Rightarrow> 's \<Rightarrow> error + 's) \<Rightarrow> 's \<Rightarrow> error + 's" where
  "for_loop [] body s = Inr s"
| "for_loop (x # xs) body s =
     (case body x s of Inl e \<Rightarrow> Inl e | Inr s' \<Rightarrow> for_loop xs body s')"

text \<open>
  An index into an axis of length \<open>n\<close> of a numpy array: a negative index counts from the
  end, an index outside \<open>-n .. n-1\<close> raises \<open>IndexError\<close>.
\<close>

definition np_index :: "nat \<Rightarrow> int \<Rightarrow> error + nat" where
  "np_index n p =
     (if 0 \<le> p \<and> p < int n then Inr (nat p)
      else if - int n \<le> p \<and> p < 0 then Inr (nat (int n + p))
      else Inl IndexError)"

text \<open>
  The matrix \<open>K\<close> has shape \<open>(n, n)\<close> and entries of type \<open>float\<close>. The three float
  operations of the code are parameters of the model: the constants \<open>0.0\<close> (\<open>fzero\<close>) and
  \<open>0.5\<close> (\<open>fhalf\<close>) and the division \<open>x / 2\<close> (\<open>fdiv2\<close>), so that what is proved holds for
  the IEEE operations as for exact ones.

  The body of the inner loop, for the cell \<open>(i, j)\<close>: \<open>self.graph.predecessors(j)\<close> is
  called with the loop index as node; \<open>next\<close> takes the first predecessor.
\<close>

definition sim_cell ::
  "('a \<Rightarrow> 'a) \<Rightarrow> 'v graph \<Rightarrow> nat \<Rightarrow> nat \<Rightarrow> nat \<Rightarrow> (nat \<times> nat \<Rightarrow> 'a) \<Rightarrow> error + (nat \<times> nat \<Rightarrow> 'a)"
where
  "sim_cell fdiv2 g n i j K =
     (case graph_predecessors g (int j) of
        Inl e \<Rightarrow> Inl e
      | Inr it \<Rightarrow>
          if py_any it then
            (case it of
               [] \<Rightarrow> Inl StopIteration
             | p # _ \<Rightarrow>
                 (case np_index n p of
                    Inl e \<Rightarrow> Inl e
                  | Inr pidx \<Rightarrow>
                      (let K1 = K((i, j) := fdiv2 (K (i, pidx)))
                       in Inr (K1((j, i) := K1 (i, j))))))
          else Inr K)"

definition similarity ::
  "'a \<Rightarrow> 'a \<Rightarrow> ('a \<Rightarrow> 'a) \<Rightarrow> 'v graph \<Rightarrow> error + (nat \<times> nat \<Rightarrow> 'a)"
where
  "similarity fzero fhalf fdiv2 g =
     (let n = n_individuals g
      in for_loop [0..<n]
           (\<lambda>i K. for_loop [Suc i..<n] (sim_cell fdiv2 g n i) (K((i, i) := fhalf)))
           (\<lambda>ij. fzero))"

section \<open>Notions of the specification\<close>

text \<open>
  The edges in the direction of travel: parent to child when going forward, child to
  parent when going backward. A graph is a DAG when its edges have no cycle.
\<close>

definition edge_rel :: "'v graph \<Rightarrow> bool \<Rightarrow> (node \<times> node) set" where
  "edge_rel g forward = (if forward then set (graph_edges g) else (set (graph_edges g))\<inverse>)"

definition is_dag :: "'v graph \<Rightarrow> bool" where
  "is_dag g \<longleftrightarrow> acyclic (set (graph_edges g))"

text \<open>
  Founders are the nodes with no incoming edge, probands the nodes with no outgoing
  edge: the sources of the forward and of the backward direction.
\<close>

definition is_founder :: "'v graph \<Rightarrow> node \<Rightarrow> bool" where
  "is_founder g n \<longleftrightarrow> n \<in> set (nodes g) \<and> adj_pred g n = []"

definition is_proband :: "'v graph \<Rightarrow> node \<Rightarrow> bool" where
  "is_proband g n \<longleftrightarrow> n \<in> set (nodes g) \<and> adj_succ g n = []"

definition sources :: "'v graph \<Rightarrow> bool \<Rightarrow> node set" where
  "sources g forward = {n. if forward then is_founder g n else is_proband g n}"

text \<open>
  The lengths of the directed paths that lead from some source to \<open>v\<close>, and the longest
  of them.
\<close>

definition path_lengths :: "'v graph \<Rightarrow> bool \<Rightarrow> node \<Rightarrow> nat set" where
  "path_lengths g forward v = {k. \<exists>s \<in> sources g forward. (s, v) \<in> edge_rel g forward ^^ k}"

definition longest_path :: "'v graph \<Rightarrow> bool \<Rightarrow> node \<Rightarrow> nat" where
  "longest_path g forward v = Max (path_lengths g forward v)"

text \<open>The adjacency list of a node in the direction of travel.\<close>

definition adj_dir :: "'v graph \<Rightarrow> bool \<Rightarrow> node \<Rightarrow> node list" where
  "adj_dir g forward n = (if forward then adj_succ g n else adj_pred g n)"

text \<open>
  The nodes at which a path of exactly \<open>k\<close> edges from a node of \<open>S\<close> ends, and whether a
  node that lies on a cycle can be reached from \<open>S\<close>.
\<close>

definition layer :: "'v graph \<Rightarrow> bool \<Rightarrow> node set \<Rightarrow> nat \<Rightarrow> node set" where
  "layer g forward S k = (edge_rel g forward ^^ k) `` S"

definition cycle_reachable :: "'v graph \<Rightarrow> bool \<Rightarrow> node set \<Rightarrow> bool" where
  "cycle_reachable g forward S \<longleftrightarrow>
     (\<exists>s \<in> S. \<exists>v. (s, v) \<in> (edge_rel g forward)\<^sup>* \<and> (v, v) \<in> (edge_rel g forward)\<^sup>+)"

text \<open>
  The two invariants of the relaxation, relative to the set \<open>S\<close> the traversal starts
  from: a non-zero depth is the length of some path from \<open>S\<close> to the node, and after
  round \<open>i\<close> every node is at least as deep as the paths of length up to \<open>i\<close> that
  reach it.
\<close>

definition depth_upper :: "'v graph \<Rightarrow> bool \<Rightarrow> node set \<Rightarrow> depth_dict \<Rightarrow> bool" where
  "depth_upper g forward S depth \<longleftrightarrow>
     (\<forall>v. depth_of depth v \<noteq> 0 \<longrightarrow>
          0 < depth_of depth v \<and> v \<in> layer g forward S (nat (depth_of depth v)))"

definition depth_lower :: "'v graph \<Rightarrow> bool \<Rightarrow> node set \<Rightarrow> nat \<Rightarrow> depth_dict \<Rightarrow> bool" where
  "depth_lower g forward S i depth \<longleftrightarrow>
     (\<forall>j \<le> i. \<forall>v \<in> layer g forward S j. int j \<le> depth_of depth v)"

text \<open>
  The invariant of the two loops of \<open>similarity\<close> when the cell \<open>(i, j)\<close> is reached:
  the diagonal is set in the rows begun, the matrix is symmetric, and every cell
  \<open>(a, b)\<close> already passed whose column satisfies \<open>C\<close> is half the cell \<open>(a, P b)\<close>.
  \<open>has_parent\<close> and \<open>first_parent\<close> are the condition and the parent index of a column.
\<close>

definition sim_inv ::
  "'a \<Rightarrow> ('a \<Rightarrow> 'a) \<Rightarrow> (nat \<Rightarrow> bool) \<Rightarrow> (nat \<Rightarrow> nat) \<Rightarrow> nat \<Rightarrow> nat \<Rightarrow> nat \<Rightarrow> (nat \<times> nat \<Rightarrow> 'a) \<Rightarrow> bool"
where
  "sim_inv fhalf fdiv2 C P n i j K \<longleftrightarrow>
     (\<forall>a. a < n \<and> (a < i \<or> a = i \<and> i < j) \<longrightarrow> K (a, a) = fhalf) \<and>
     (\<forall>a b. K (a, b) = K (b, a)) \<and>
     (\<forall>a b. a < b \<and> b < n \<and> (a < i \<or> a = i \<and> b < j) \<and> C b \<longrightarrow> K (a, b) = fdiv2 (K (a, P b)))"

definition has_parent :: "'v graph \<Rightarrow> nat \<Rightarrow> bool" where
  "has_parent g j \<longleftrightarrow>
     (\<exists>q \<in> set (adj_pred g (int j)). q \<noteq> 0) \<and> hd (adj_pred g (int j)) < int j"

definition first_parent :: "'v graph \<Rightarrow> nat \<Rightarrow> nat" where
  "first_parent g j = nat (hd (adj_pred g (int j)))"

text \<open>The graphs of the example scenarios.\<close>

definition chain :: "node \<Rightarrow> node \<Rightarrow> node \<Rightarrow> unit graph" where
  "chain F A B = \<lparr>graph_nodes = [(F, []), (A, []), (B, [])], graph_edges = [(F, A), (A, B)]\<rparr>"

definition diamond :: "node \<Rightarrow> node \<Rightarrow> node \<Rightarrow> node \<Rightarrow> unit graph" where
  "diamond F A B C =
     \<lparr>graph_nodes = [(F, []), (A, []), (B, []), (C, [])],
      graph_edges = [(F, A), (F, B), (A, C), (B, C)]\<rparr>"

text \<open>A single edge from node \<open>1\<close> to node \<open>0\<close>.\<close>

definition edge_to_zero :: "unit graph" where
  "edge_to_zero = \<lparr>graph_nodes = [(1, []), (0, [])], graph_edges = [(1, 0)]\<rparr>"

text \<open>A single edge from node \<open>0\<close> to node \<open>1\<close>.\<close>

definition edge_from_zero :: "unit graph" where
  "edge_from_zero = \<lparr>graph_nodes = [(0, []), (1, [])], graph_edges = [(0, 1)]\<rparr>"

text \<open>Four nodes \<open>0 .. 3\<close> with the edges \<open>1 \<rightarrow> 3\<close> and \<open>3 \<rightarrow> 2\<close>; node \<open>0\<close> is isolated.\<close>

definition four_nodes :: "unit graph" where
  "four_nodes =
     \<lparr>graph_nodes = [(0, []), (1, []), (2, []), (3, [])], graph_edges = [(1, 3), (3, 2)]\<rparr>"

text \<open>Two nodes on a cycle: \<open>1 \<rightarrow> 2\<close> and \<open>2 \<rightarrow> 1\<close>.\<close>

definition two_cycle :: "unit graph" where
  "two_cycle = \<lparr>graph_nodes = [(1, []), (2, [])], graph_edges = [(1, 2), (2, 1)]\<rparr>"

text \<open>Two nodes on a cycle, one of them node \<open>0\<close>: \<open>0 \<rightarrow> 1\<close> and \<open>1 \<rightarrow> 0\<close>.\<close>

definition zero_cycle :: "unit graph" where
  "zero_cycle = \<lparr>graph_nodes = [(0, []), (1, [])], graph_edges = [(0, 1), (1, 0)]\<rparr>"

text \<open>A set iteration order for concrete runs: first occurrences, in order of insertion.\<close>

definition insertion_order :: "nat \<Rightarrow> node list \<Rightarrow> node list" where
  "insertion_order i xs = first_seen xs"

section \<open>Properties of the cohort queries\<close>

subsection \<open>Unfolding the level search\<close>

lemma sssp_levels_stop:
  "nextlevel = [] \<or> cutoff < level \<Longrightarrow> sssp_levels adj cutoff level seen nextlevel = seen"
  by (subst sssp_levels.simps) auto

lemma sssp_levels_step:
  "nextlevel \<noteq> [] \<Longrightarrow> level \<le> cutoff \<Longrightarrow>
   sssp_levels adj cutoff level seen nextlevel =
     sssp_levels adj cutoff (level + 1)
       (seen @ map (\<lambda>v. (v, level)) (first_seen (filter (\<lambda>v. v \<notin> fst ` set seen) nextlevel)))
       (concat (map adj (first_seen (filter (\<lambda>v. v \<notin> fst ` set seen) nextlevel))))"
  by (subst sssp_levels.simps) (simp add: Let_def)

lemma sssp_levels_prefix: "\<exists>rest. sssp_levels adj cutoff level seen nextlevel = seen @ rest"
proof (induction adj cutoff level seen nextlevel rule: sssp_levels.induct)
  case (1 adj cutoff level seen nextlevel)
  show ?case
  proof (cases "nextlevel \<noteq> [] \<and> level \<le> cutoff")
    case True
    with 1 obtain rest where
      "sssp_levels adj cutoff (level + 1)
         (seen @ map (\<lambda>v. (v, level)) (first_seen (filter (\<lambda>v. v \<notin> fst ` set seen) nextlevel)))
         (concat (map adj (first_seen (filter (\<lambda>v. v \<notin> fst ` set seen) nextlevel))))
       = (seen @ map (\<lambda>v. (v, level)) (first_seen (filter (\<lambda>v. v \<notin> fst ` set seen) nextlevel))) @ rest"
      by (auto simp: Let_def)
    with True show ?thesis
      by (simp add: sssp_levels_step)
  next
    case False
    then have "sssp_levels adj cutoff level seen nextlevel = seen"
      by (intro sssp_levels_stop) auto
    then show ?thesis by simp
  qed
qed

lemma sssp_levels_source:
  assumes "0 \<le> k"
  shows "\<exists>rest. sssp_levels adj k 0 [] [n] = (n, 0) # rest"
proof -
  obtain rest where "sssp_levels adj k (0 + 1) ([] @ map (\<lambda>v. (v, 0)) [n]) (concat (map adj [n]))
      = ([] @ map (\<lambda>v. (v, 0)) [n]) @ rest"
    using sssp_levels_prefix by blast
  with assms show ?thesis
    by (simp add: sssp_levels_step first_seen_def)
qed

lemma sssp_levels_zero: "sssp_levels adj 0 0 [] [n] = [(n, 0)]"
  by (simp add: sssp_levels_step sssp_levels_stop first_seen_def)

lemma sssp_levels_one_leaf: "adj n = [] \<Longrightarrow> sssp_levels adj 1 0 [] [n] = [(n, 0)]"
  by (simp add: sssp_levels_step sssp_levels_stop first_seen_def)

subsection \<open>The attributes accessor\<close>

text \<open>
  C10. \<open>attributes\<close> returns the attribute keys of the first listed node, whatever the
  other nodes carry, and fails with \<open>IndexError\<close> on the graph without nodes; it fails
  exactly when the graph has no node.
\<close>

theorem attributes_first_node:
  "attributes \<lparr>graph_nodes = (n, d) # rest, graph_edges = es\<rparr> = Inr (map fst d) \<and>
   attributes \<lparr>graph_nodes = [], graph_edges = es\<rparr> = Inl IndexError \<and>
   ((\<exists>e. attributes g = Inl e) \<longleftrightarrow> n_individuals g = 0)"
  by (auto simp: attributes_def n_individuals_def nodes_def split: list.splits)

subsection \<open>Predecessors and successors with founders or leaves included\<close>

text \<open>
  C2. With \<open>include_founders\<close> (or \<open>include_leaves\<close>) set and \<open>k \<ge> 1\<close>, the loop meets
  the start node first, at distance \<open>0 \<noteq> k\<close>, and evaluates \<open>len\<close> of an adjacency
  iterator: the call raises \<open>TypeError\<close> instead of returning the nodes at distance \<open>k\<close>
  together with the nearer founders (or leaves).
\<close>

theorem include_founders_raises:
  assumes "n \<in> set (nodes g)" and "1 \<le> k"
  shows "predecessors g n k False True = Inl TypeError \<and>
         successors g n k False True = Inl TypeError"
proof -
  from assms obtain rest where p: "sssp_levels (adj_reverse g) k 0 [] [n] = (n, 0) # rest"
    using sssp_levels_source [of k "adj_reverse g" n] by auto
  from assms obtain rest' where s: "sssp_levels (adj_succ g) k 0 [] [n] = (n, 0) # rest'"
    using sssp_levels_source [of k "adj_succ g" n] by auto
  from assms p have "predecessors g n k False True = Inl TypeError"
    by (simp add: predecessors_def shortest_path_length_def graph_predecessors_def
        len_iterator_def)
  moreover from assms s have "successors g n k False True = Inl TypeError"
    by (simp add: successors_def shortest_path_length_def graph_successors_def len_iterator_def)
  ultimately show ?thesis by simp
qed

theorem include_founders_raises_witness:
  "3 \<in> set (nodes (chain 1 2 3)) \<and> (1::int) \<le> 2 \<and>
   predecessors (chain 1 2 3) 3 2 False True = Inl TypeError \<and>
   successors (chain 1 2 3) 3 2 False True = Inl TypeError"
  using include_founders_raises [of 3 "chain 1 2 3" 2]
  by (simp add: chain_def nodes_def)

subsection \<open>The chain scenario\<close>

text \<open>
  C3, as amended. On the chain \<open>F \<rightarrow> A \<rightarrow> B\<close>, \<open>predecessors(B, k=2)\<close> returns exactly
  \<open>F\<close>; with \<open>include_intermediates\<close> it returns every node at distance at most \<open>2\<close>,
  which includes \<open>B\<close> itself at distance \<open>0\<close>: the nodes \<open>B\<close>, \<open>A\<close> and \<open>F\<close>.
\<close>

theorem chain_predecessors:
  assumes "distinct [F, A, B]"
  shows "predecessors (chain F A B) B 2 False False = Inr [F] \<and>
         predecessors (chain F A B) B 2 True False = Inr [B, A, F]"
  using assms
  by (auto simp: predecessors_def chain_def shortest_path_length_def nodes_def adj_reverse_def
      first_seen_def sssp_levels_step sssp_levels_stop)

theorem chain_predecessors_witness:
  "distinct [1::int, 2, 3] \<and>
   predecessors (chain 1 2 3) 3 2 False False = Inr [1] \<and>
   predecessors (chain 1 2 3) 3 2 True False = Inr [3, 2, 1]"
  using chain_predecessors [of 1 2 3] by simp

text \<open>
  The claim as stated, that with \<open>include_intermediates\<close> the result is the set of \<open>F\<close>
  and \<open>A\<close> and nothing else, fails on the chain \<open>1 \<rightarrow> 2 \<rightarrow> 3\<close>.
\<close>

theorem chain_intermediates_counterexample:
  "\<not> (\<exists>xs. predecessors (chain 1 2 3) 3 2 True False = Inr xs \<and> set xs = {1, 2})"
proof
  assume "\<exists>xs. predecessors (chain 1 2 3) 3 2 True False = Inr xs \<and> set xs = {1, 2}"
  then obtain xs where xs: "predecessors (chain 1 2 3) 3 2 True False = Inr xs" "set xs = {1, 2}"
    by blast
  have "predecessors (chain 1 2 3) 3 2 True False = Inr [3, 2, 1]"
    by (simp add: predecessors_def chain_def shortest_path_length_def nodes_def adj_reverse_def
        first_seen_def sssp_levels_step sssp_levels_stop)
  with xs(1) have "(3::int) \<in> set xs" by auto
  with xs(2) show False by simp
qed

subsection \<open>Probands under an isolated node\<close>

text \<open>
  C8. For a node \<open>n\<close> with no parents and no children, \<open>get_probands_under\<close> on \<open>n\<close> with
  \<open>climb_up_step = 0\<close> returns the mapping with the single entry \<open>n \<mapsto> {n}\<close>.
\<close>

theorem isolated_probands_under:
  assumes "is_founder g n" and "is_proband g n"
  shows "get_probands_under g (Single n) 0 = Some (Inr [(n, {n})])"
  using assms
  by (simp add: get_probands_under_def probands_under_node_def predecessors_def successors_def
      shortest_path_length_def is_founder_def is_proband_def sssp_levels_zero sssp_levels_one_leaf)

theorem isolated_probands_under_witness:
  "is_founder four_nodes 0 \<and> is_proband four_nodes 0 \<and>
   get_probands_under four_nodes (Single 0) 0 = Some (Inr [(0, {0})])"
proof -
  have f: "is_founder four_nodes 0"
    by (simp add: is_founder_def four_nodes_def nodes_def adj_pred_def)
  have p: "is_proband four_nodes 0"
    by (simp add: is_proband_def four_nodes_def nodes_def adj_succ_def)
  from f p isolated_probands_under [OF f p] show ?thesis by simp
qed

section \<open>Paths of a given length in a finite relation\<close>

lemma relpow_Image_Suc: "((R :: ('a \<times> 'a) set) ^^ Suc k) `` S = (R ^^ k) `` (R `` S)"
proof -
  have "R ^^ Suc k = R O R ^^ k" by (simp add: relpow_commute)
  then show ?thesis by (simp only: relcomp_Image)
qed

lemma relpow_Image_empty_mono:
  fixes R :: "('a \<times> 'a) set"
  assumes "(R ^^ k) `` S = {}" and "k \<le> k'"
  shows "(R ^^ k') `` S = {}"
proof -
  from assms(2) obtain m where "k' = k + m" using le_Suc_ex by blast
  then have "(R ^^ k') `` S = (R ^^ m) `` ((R ^^ k) `` S)"
    by (simp add: relpow_add relcomp_Image)
  with assms(1) show ?thesis by simp
qed

lemma relpow_Image_Union_empty:
  fixes R :: "('a \<times> 'a) set"
  assumes "finite A" and "\<forall>w \<in> A. \<exists>k. (R ^^ k) `` {w} = {}"
  shows "\<exists>k. (R ^^ k) `` A = {}"
proof -
  from assms(2) have "\<exists>f. \<forall>w \<in> A. (R ^^ f w) `` {w} = {}"
    by (rule bchoice)
  then obtain f where f: "\<forall>w \<in> A. (R ^^ f w) `` {w} = {}" ..
  define K where "K = sum f A"
  have "(R ^^ K) `` {w} = {}" if "w \<in> A" for w
  proof -
    from that assms(1) have "f w \<le> K"
      unfolding K_def by (simp add: member_le_sum)
    moreover from f that have "(R ^^ f w) `` {w} = {}" by simp
    ultimately show ?thesis
      by (rule relpow_Image_empty_mono [rotated])
  qed
  then have "(R ^^ K) `` A = {}"
    by (subst Image_eq_UN) simp
  then show ?thesis ..
qed

lemma no_long_walks:
  fixes R :: "('a \<times> 'a) set"
  assumes fin: "finite R" and finS: "finite S"
    and nocyc: "\<forall>v \<in> R\<^sup>* `` S. (v, v) \<notin> R\<^sup>+"
  shows "\<exists>k. (R ^^ k) `` S = {}"
proof -
  define R' where "R' = {(u, v). (u, v) \<in> R \<and> u \<in> R\<^sup>* `` S}"
  have sub: "R' \<subseteq> R" by (auto simp: R'_def)
  then have finR': "finite R'" using fin by (rule finite_subset)
  have "acyclic R'"
    unfolding acyclic_def
  proof (intro allI notI)
    fix x assume x: "(x, x) \<in> R'\<^sup>+"
    then obtain y where "(x, y) \<in> R'" by (meson tranclD)
    then have "x \<in> R\<^sup>* `` S" by (simp add: R'_def)
    moreover from x sub have "(x, x) \<in> R\<^sup>+" by (meson trancl_mono)
    ultimately show False using nocyc by blast
  qed
  with finR' have wf: "wf (R'\<inverse>)" by (rule finite_acyclic_wf_converse)
  have node: "u \<in> R\<^sup>* `` S \<Longrightarrow> \<exists>k. (R ^^ k) `` {u} = {}" for u
  proof (induction u rule: wf_induct_rule [OF wf])
    case (1 u)
    have "\<forall>w \<in> R `` {u}. \<exists>k. (R ^^ k) `` {w} = {}"
    proof
      fix w assume "w \<in> R `` {u}"
      then have uw: "(u, w) \<in> R" by simp
      with "1.prems" have "(w, u) \<in> R'\<inverse>" by (simp add: R'_def)
      moreover from uw "1.prems" have "w \<in> R\<^sup>* `` S"
        by (meson Image_iff rtrancl.rtrancl_into_rtrancl)
      ultimately show "\<exists>k. (R ^^ k) `` {w} = {}" by (rule "1.IH")
    qed
    moreover have "finite (R `` {u})"
      by (rule finite_subset [OF _ finite_Range [OF fin]]) auto
    ultimately obtain k where "(R ^^ k) `` (R `` {u}) = {}"
      using relpow_Image_Union_empty by blast
    then have "(R ^^ Suc k) `` {u} = {}"
      by (simp only: relpow_Image_Suc)
    then show ?case ..
  qed
  have "\<forall>s \<in> S. \<exists>k. (R ^^ k) `` {s} = {}"
    using node by blast
  with finS show ?thesis by (rule relpow_Image_Union_empty)
qed

lemma walks_on_cycle:
  fixes R :: "('a \<times> 'a) set"
  assumes "(v, v) \<in> R\<^sup>+"
  shows "\<exists>w. (v, w) \<in> R ^^ k \<and> (w, v) \<in> R\<^sup>*"
proof (induction k)
  case 0
  show ?case by auto
next
  case (Suc k)
  then obtain w where w: "(v, w) \<in> R ^^ k" "(w, v) \<in> R\<^sup>*" by blast
  have "(w, v) \<in> R\<^sup>+"
    using w(2) assms by (auto dest: rtranclD)
  then obtain y where "(w, y) \<in> R" "(y, v) \<in> R\<^sup>*"
    by (meson tranclD)
  with w(1) show ?case by auto
qed

lemma long_walks:
  fixes R :: "('a \<times> 'a) set"
  assumes "s \<in> S" and "(s, v) \<in> R\<^sup>*" and "(v, v) \<in> R\<^sup>+"
  shows "(R ^^ k) `` S \<noteq> {}"
proof -
  from assms(2) obtain a where a: "(s, v) \<in> R ^^ a"
    by (auto simp: rtrancl_power)
  show ?thesis
  proof (cases "k \<le> a")
    case True
    then obtain m where "a = k + m" using le_Suc_ex by blast
    with a have "(s, v) \<in> R ^^ k O R ^^ m" by (simp add: relpow_add)
    then obtain x where "(s, x) \<in> R ^^ k" by blast
    with assms(1) show ?thesis by blast
  next
    case False
    then have "a \<le> k" by simp
    then obtain m where m: "k = a + m" using le_Suc_ex by blast
    obtain w where "(v, w) \<in> R ^^ m"
      using walks_on_cycle [OF assms(3)] by blast
    with a have "(s, w) \<in> R ^^ a O R ^^ m" by blast
    then have "(s, w) \<in> R ^^ k" by (simp add: m relpow_add)
    with assms(1) show ?thesis by blast
  qed
qed

section \<open>Properties of the traversal\<close>

lemma adj_edge_rel: "v \<in> set (adj_dir g fwd u) \<longleftrightarrow> (u, v) \<in> edge_rel g fwd"
  by (auto simp: adj_dir_def adj_succ_def adj_pred_def edge_rel_def image_iff)

lemma set_adj: "set (adj_dir g fwd u) = edge_rel g fwd `` {u}"
  by (auto simp: adj_edge_rel)

lemma neighbors_in: "u \<in> set (nodes g) \<Longrightarrow> neighbors g fwd u = Inr (adj_dir g fwd u)"
  by (simp add: neighbors_def adj_dir_def graph_successors_def graph_predecessors_def)

lemma neighbors_out: "u \<notin> set (nodes g) \<Longrightarrow> neighbors g fwd u = Inl NetworkXError"
  by (simp add: neighbors_def graph_successors_def graph_predecessors_def)

lemma edge_rel_nodes:
  "wf_graph g \<Longrightarrow> (u, v) \<in> edge_rel g fwd \<Longrightarrow> u \<in> set (nodes g) \<and> v \<in> set (nodes g)"
  by (auto simp: wf_graph_def edge_rel_def list_all_iff split: if_splits)

lemma finite_edge_rel: "finite (edge_rel g fwd)"
  by (simp add: edge_rel_def)

lemma acyclic_edge_rel: "is_dag g \<Longrightarrow> acyclic (edge_rel g fwd)"
  by (simp add: is_dag_def edge_rel_def acyclic_converse)

lemma trace_gen_ok:
  "set cs \<subseteq> set (nodes g) \<Longrightarrow>
   trace_gen (neighbors g fwd) cs =
     Inr (concat (map (\<lambda>u. map (Pair u) (adj_dir g fwd u)) cs), concat (map (adj_dir g fwd) cs))"
  by (induction cs) (simp_all add: neighbors_in)

lemma trace_gen_err:
  "\<not> set cs \<subseteq> set (nodes g) \<Longrightarrow> trace_gen (neighbors g fwd) cs = Inl NetworkXError"
proof (induction cs)
  case Nil
  then show ?case by simp
next
  case (Cons c cs)
  show ?case
  proof (cases "c \<in> set (nodes g)")
    case True
    with Cons show ?thesis by (simp add: neighbors_in)
  next
    case False
    then show ?thesis by (simp add: neighbors_out)
  qed
qed

lemma layer_0: "layer g fwd S 0 = S"
  by (simp add: layer_def)

lemma layer_Suc: "layer g fwd S (Suc k) = layer g fwd (edge_rel g fwd `` S) k"
proof -
  have "edge_rel g fwd ^^ Suc k = edge_rel g fwd O edge_rel g fwd ^^ k"
    by (simp add: relpow_commute)
  then show ?thesis
    unfolding layer_def by (simp only: relcomp_Image)
qed

lemma layer_Suc': "layer g fwd S (Suc k) = edge_rel g fwd `` layer g fwd S k"
  by (simp add: layer_def relcomp_Image)

lemma next_gen_set: "set (concat (map (adj_dir g fwd) cs)) = edge_rel g fwd `` set cs"
  by (auto simp: adj_edge_rel)

lemma next_gen_nodes:
  "wf_graph g \<Longrightarrow> set (concat (map (adj_dir g fwd) cs)) \<subseteq> set (nodes g)"
  by (auto simp: adj_edge_rel dest: edge_rel_nodes)

lemma trace_loop_unfold:
  assumes "set_iteration iter" and "set cur \<subseteq> set (nodes g)" and "cur \<noteq> []"
  shows "trace_loop iter (neighbors g fwd) i cur =
     Option.bind (trace_loop iter (neighbors g fwd) (Suc i) (concat (map (adj_dir g fwd) (iter i cur))))
       (\<lambda>r. Some (case r of Inl e \<Rightarrow> Inl e
                   | Inr zs \<Rightarrow> Inr (concat (map (\<lambda>u. map (Pair u) (adj_dir g fwd u)) (iter i cur)) @ zs)))"
proof -
  from assms have "set (iter i cur) \<subseteq> set (nodes g)"
    by (simp add: set_iteration_def)
  then show ?thesis
    using assms(3) by (subst trace_loop.simps) (simp add: trace_gen_ok)
qed

lemma trace_loop_empty: "trace_loop iter nb i [] = Some (Inr [])"
  by (subst trace_loop.simps) simp

lemma trace_loop_terminates:
  assumes "set_iteration iter" and "wf_graph g"
  shows "set cur \<subseteq> set (nodes g) \<Longrightarrow> layer g fwd (set cur) k = {} \<Longrightarrow>
         \<exists>ys. trace_loop iter (neighbors g fwd) i cur = Some (Inr ys)"
proof (induction k arbitrary: i cur)
  case 0
  then show ?case by (simp add: layer_0 trace_loop_empty)
next
  case (Suc k)
  show ?case
  proof (cases "cur = []")
    case True
    then show ?thesis by (simp add: trace_loop_empty)
  next
    case False
    let ?nxt = "concat (map (adj_dir g fwd) (iter i cur))"
    have "set (iter i cur) = set cur"
      using assms(1) by (simp add: set_iteration_def)
    then have "set ?nxt = edge_rel g fwd `` set cur"
      by (simp only: next_gen_set)
    with Suc.prems have "layer g fwd (set ?nxt) k = {}"
      by (simp add: layer_Suc)
    moreover have "set ?nxt \<subseteq> set (nodes g)"
      using assms(2) by (rule next_gen_nodes)
    ultimately obtain zs where "trace_loop iter (neighbors g fwd) (Suc i) ?nxt = Some (Inr zs)"
      using Suc.IH by blast
    then show ?thesis
      using trace_loop_unfold [OF assms(1) Suc.prems(1) False, of fwd i] by simp
  qed
qed

lemma trace_loop_error:
  assumes "set_iteration iter" and "\<not> set cur \<subseteq> set (nodes g)"
  shows "trace_loop iter (neighbors g fwd) i cur = Some (Inl NetworkXError)"
proof -
  from assms have "\<not> set (iter i cur) \<subseteq> set (nodes g)" "cur \<noteq> []"
    by (auto simp: set_iteration_def)
  then show ?thesis
    by (subst trace_loop.simps) (simp add: trace_gen_err)
qed


lemma trace_loop_Some_layer:
  assumes "trace_loop iter nb i cur = Some r"
  shows "set_iteration iter \<longrightarrow> wf_graph g \<longrightarrow> nb = neighbors g fwd \<longrightarrow>
         set cur \<subseteq> set (nodes g) \<longrightarrow> (\<exists>k. layer g fwd (set cur) k = {})"
proof (rule trace_loop.raw_induct [OF _ assms], intro impI)
  fix f iter nb i cur r
  assume IH: "\<And>iter nb i cur r. f iter nb i cur = Some r \<Longrightarrow>
         set_iteration iter \<longrightarrow> wf_graph g \<longrightarrow> nb = neighbors g fwd \<longrightarrow>
         set cur \<subseteq> set (nodes g) \<longrightarrow> (\<exists>k. layer g fwd (set cur) k = {})"
    and eq: "(if cur = [] then Some (Inr [])
      else case trace_gen nb (iter i cur) of
           Inl e \<Rightarrow> Some (Inl e)
           | Inr (ys, next_gen) \<Rightarrow>
               Option.bind (f iter nb (Suc i) next_gen)
                (\<lambda>r. Some (case r of Inl e \<Rightarrow> Inl e | Inr zs \<Rightarrow> Inr (ys @ zs)))) = Some r"
    and prems: "set_iteration iter" "wf_graph g" "nb = neighbors g fwd" "set cur \<subseteq> set (nodes g)"
  show "\<exists>k. layer g fwd (set cur) k = {}"
  proof (cases "cur = []")
    case True
    then have "layer g fwd (set cur) 0 = {}" by (simp add: layer_0)
    then show ?thesis ..
  next
    case False
    let ?nxt = "concat (map (adj_dir g fwd) (iter i cur))"
    have it: "set (iter i cur) = set cur"
      using prems(1) by (simp add: set_iteration_def)
    with prems have "trace_gen nb (iter i cur) =
        Inr (concat (map (\<lambda>u. map (Pair u) (adj_dir g fwd u)) (iter i cur)), ?nxt)"
      by (simp add: trace_gen_ok)
    with eq False obtain r' where "f iter nb (Suc i) ?nxt = Some r'"
      by (auto simp: bind_eq_Some_conv)
    moreover have "set ?nxt \<subseteq> set (nodes g)"
      using prems(2) by (rule next_gen_nodes)
    ultimately obtain k where "layer g fwd (set ?nxt) k = {}"
      using IH prems by blast
    moreover have "set ?nxt = edge_rel g fwd `` set cur"
      using it by (simp only: next_gen_set)
    ultimately have "layer g fwd (set cur) (Suc k) = {}"
      by (simp add: layer_Suc)
    then show ?thesis ..
  qed
qed

lemma set_iteration_insertion_order: "set_iteration insertion_order"
  by (simp add: set_iteration_def insertion_order_def first_seen_def)

lemma start_nodes_default: "set (start_nodes g fwd None) \<subseteq> set (nodes g)"
  by (auto simp: start_nodes_def founders_def probands_def)

lemma layers_end_iff:
  assumes "wf_graph g"
  shows "(\<exists>k. layer g fwd (set src) k = {}) \<longleftrightarrow> \<not> cycle_reachable g fwd (set src)"
proof
  assume "\<exists>k. layer g fwd (set src) k = {}"
  then show "\<not> cycle_reachable g fwd (set src)"
    unfolding cycle_reachable_def layer_def using long_walks [of _ "set src" _ "edge_rel g fwd"]
    by blast
next
  assume "\<not> cycle_reachable g fwd (set src)"
  then have "\<forall>v \<in> (edge_rel g fwd)\<^sup>* `` set src. (v, v) \<notin> (edge_rel g fwd)\<^sup>+"
    by (auto simp: cycle_reachable_def)
  then show "\<exists>k. layer g fwd (set src) k = {}"
    unfolding layer_def using no_long_walks [OF finite_edge_rel, of "set src" g fwd] by simp
qed

lemma dag_no_cycle: "is_dag g \<Longrightarrow> \<not> cycle_reachable g fwd S"
  using acyclic_edge_rel [of g fwd] by (auto simp: cycle_reachable_def acyclic_def)

lemma trace_loop_None_iff:
  assumes "wf_graph g" and "set_iteration iter"
  shows "trace_loop iter (neighbors g fwd) i src = None \<longleftrightarrow>
         set src \<subseteq> set (nodes g) \<and> cycle_reachable g fwd (set src)"
proof (cases "set src \<subseteq> set (nodes g)")
  case False
  with assms(2) show ?thesis by (simp add: trace_loop_error)
next
  case True
  show ?thesis
  proof (cases "cycle_reachable g fwd (set src)")
    case True
    have "trace_loop iter (neighbors g fwd) i src = None"
    proof (rule ccontr)
      assume "trace_loop iter (neighbors g fwd) i src \<noteq> None"
      then obtain r where "trace_loop iter (neighbors g fwd) i src = Some r" by blast
      from trace_loop_Some_layer [OF this, of g fwd] assms \<open>set src \<subseteq> set (nodes g)\<close>
      have "\<exists>k. layer g fwd (set src) k = {}" by simp
      with True assms(1) show False by (simp add: layers_end_iff)
    qed
    with True \<open>set src \<subseteq> set (nodes g)\<close> show ?thesis by simp
  next
    case False
    with assms(1) obtain k where "layer g fwd (set src) k = {}"
      using layers_end_iff by blast
    with trace_loop_terminates [OF assms(2,1) True, of fwd k i] False show ?thesis by auto
  qed
qed

text \<open>
  C7, as amended. The sources of a traversal are the nodes given as \<open>source\<close> or, for
  \<open>source=None\<close>, the start set the code computes: the nodes \<open>n\<close> for which
  \<open>any(G.predecessors(n))\<close> (forward) or \<open>any(G.successors(n))\<close> (backward) is false.
  For every graph, either direction and every source, \<open>trace_edges\<close> on an acyclic graph
  ends: the sequence is finite, and complete when the sources are nodes of the graph.
  A source that is not a node of the graph ends the traversal with \<open>NetworkXError\<close>,
  on every graph. When the sources are nodes of the graph, the traversal runs forever
  exactly when a node on a cycle can be reached from one of them in the direction of
  travel; a cyclic graph whose cycles cannot be reached from the sources is traversed
  completely in finitely many steps.
\<close>

theorem trace_edges_termination:
  assumes "wf_graph g" and "set_iteration iter"
  shows "(is_dag g \<longrightarrow>
            (\<exists>r. trace_edges iter g forward source = Some r \<and>
                 (set (start_nodes g forward source) \<subseteq> set (nodes g) \<longrightarrow> (\<exists>ys. r = Inr ys)))) \<and>
         (\<not> set (start_nodes g forward source) \<subseteq> set (nodes g) \<longrightarrow>
            trace_edges iter g forward source = Some (Inl NetworkXError)) \<and>
         (set (start_nodes g forward source) \<subseteq> set (nodes g) \<and>
          \<not> cycle_reachable g forward (set (start_nodes g forward source)) \<longrightarrow>
            (\<exists>ys. trace_edges iter g forward source = Some (Inr ys))) \<and>
         (trace_edges iter g forward source = None \<longleftrightarrow>
            set (start_nodes g forward source) \<subseteq> set (nodes g) \<and>
            cycle_reachable g forward (set (start_nodes g forward source)))"
proof -
  let ?src = "start_nodes g forward source"
  have iff: "trace_edges iter g forward source = None \<longleftrightarrow>
      set ?src \<subseteq> set (nodes g) \<and> cycle_reachable g forward (set ?src)"
    unfolding trace_edges_def using assms by (rule trace_loop_None_iff)
  have err: "trace_edges iter g forward source = Some (Inl NetworkXError)"
    if "\<not> set ?src \<subseteq> set (nodes g)"
    unfolding trace_edges_def using assms(2) that by (rule trace_loop_error)
  have fin: "\<exists>ys. trace_edges iter g forward source = Some (Inr ys)"
    if "set ?src \<subseteq> set (nodes g)" "\<not> cycle_reachable g forward (set ?src)"
  proof -
    from that(2) assms(1) obtain k where "layer g forward (set ?src) k = {}"
      using layers_end_iff by blast
    with trace_loop_terminates [OF assms(2,1) that(1), of forward k 0] show ?thesis
      by (simp add: trace_edges_def)
  qed
  have "\<exists>r. trace_edges iter g forward source = Some r \<and>
           (set ?src \<subseteq> set (nodes g) \<longrightarrow> (\<exists>ys. r = Inr ys))" if dag: "is_dag g"
  proof (cases "set ?src \<subseteq> set (nodes g)")
    case True
    with fin dag_no_cycle [OF dag] show ?thesis by auto
  next
    case False
    with err show ?thesis by simp
  qed
  with iff err fin show ?thesis by blast
qed

lemma wf_graph_chain: "distinct [F, A, B] \<Longrightarrow> wf_graph (chain F A B)"
  by (simp add: wf_graph_def chain_def nodes_def)

theorem trace_edges_termination_witness:
  "wf_graph (chain 1 2 3) \<and> wf_graph zero_cycle \<and> set_iteration insertion_order \<and>
   is_dag (chain 1 2 3) \<and>
   set (start_nodes (chain 1 2 3) True None) \<subseteq> set (nodes (chain 1 2 3)) \<and>
   \<not> cycle_reachable (chain 1 2 3) True (set (start_nodes (chain 1 2 3) True None)) \<and>
   (\<exists>ys. trace_edges insertion_order (chain 1 2 3) True None = Some (Inr ys)) \<and>
   \<not> set (start_nodes (chain 1 2 3) True (Some [7])) \<subseteq> set (nodes (chain 1 2 3)) \<and>
   trace_edges insertion_order (chain 1 2 3) True (Some [7]) = Some (Inl NetworkXError) \<and>
   start_nodes zero_cycle True None = [1] \<and>
   cycle_reachable zero_cycle True (set (start_nodes zero_cycle True None)) \<and>
   trace_edges insertion_order zero_cycle True None = None"
proof -
  have w: "wf_graph (chain 1 2 3)" by (simp add: wf_graph_chain)
  have "acyclic {(1::int, 2::int), (2, 3)}"
    by (rule acyclicI_order [where f = uminus]) auto
  then have d: "is_dag (chain 1 2 3)" by (simp add: is_dag_def chain_def)
  have s: "set (start_nodes (chain 1 2 3) True None) \<subseteq> set (nodes (chain 1 2 3))"
    by (rule start_nodes_default)
  have nc: "\<not> cycle_reachable (chain 1 2 3) True (set (start_nodes (chain 1 2 3) True None))"
    using d by (rule dag_no_cycle)
  have o: "\<not> set (start_nodes (chain 1 2 3) True (Some [7])) \<subseteq> set (nodes (chain 1 2 3))"
    by (simp add: start_nodes_def chain_def nodes_def)
  have wz: "wf_graph zero_cycle" by (simp add: wf_graph_def zero_cycle_def nodes_def)
  have sz: "start_nodes zero_cycle True None = [1]"
    by (simp add: start_nodes_def founders_def zero_cycle_def nodes_def adj_pred_def py_any_def
        truthy_def)
  have "(1::int, 1::int) \<in> {(0, 1), (1, 0)}\<^sup>+"
    by (rule trancl_trans [of _ 0]) auto
  then have cz: "cycle_reachable zero_cycle True (set (start_nodes zero_cycle True None))"
    unfolding sz by (auto simp: cycle_reachable_def edge_rel_def zero_cycle_def)
  have sub: "set (start_nodes zero_cycle True None) \<subseteq> set (nodes zero_cycle)"
    by (rule start_nodes_default)
  from trace_edges_termination [OF w set_iteration_insertion_order, of True None] s nc
  have 1: "\<exists>ys. trace_edges insertion_order (chain 1 2 3) True None = Some (Inr ys)" by blast
  from trace_edges_termination [OF w set_iteration_insertion_order, of True "Some [7]"] o
  have 2: "trace_edges insertion_order (chain 1 2 3) True (Some [7]) = Some (Inl NetworkXError)"
    by blast
  from trace_edges_termination [OF wz set_iteration_insertion_order, of True None] cz sub
  have 3: "trace_edges insertion_order zero_cycle True None = None" by blast
  from w wz d s nc o sz cz 1 2 3 set_iteration_insertion_order show ?thesis by blast
qed

text \<open>
  The claim as stated, that on a cyclic graph the traversal does not terminate, fails
  on the two-node cycle: it has no founder, so the default forward traversal starts
  from the empty set and ends at once.
\<close>

theorem trace_edges_cycle_counterexample:
  "\<not> is_dag two_cycle \<and> trace_edges insertion_order two_cycle True None = Some (Inr [])"
proof -
  have "(1::int, 1::int) \<in> {(1, 2), (2, 1)}\<^sup>+"
    by (rule trancl_trans [of _ 2]) auto
  then have "\<not> is_dag two_cycle"
    by (auto simp: is_dag_def two_cycle_def acyclic_def)
  moreover have "start_nodes two_cycle True None = []"
    by (simp add: start_nodes_def founders_def two_cycle_def nodes_def adj_pred_def py_any_def
        truthy_def)
  ultimately show ?thesis
    by (simp add: trace_edges_def trace_loop_empty)
qed

section \<open>Properties of depth inference\<close>

lemma depth_of_relax:
  "depth_of (relax (u, c) D) v =
     (if v = c \<and> depth_of D c \<le> depth_of D u then depth_of D u + 1 else depth_of D v)"
  by (auto simp: relax_def dd_getitem_def depth_of_def update_conv' split: option.splits if_splits)

lemma relax_step:
  assumes up: "depth_upper g fwd S D" and lo: "depth_lower g fwd S i D"
    and u: "u \<in> layer g fwd S i" and e: "(u, c) \<in> edge_rel g fwd"
  shows "depth_upper g fwd S (relax (u, c) D)"
    and "\<forall>v. depth_of D v \<le> depth_of (relax (u, c) D) v"
    and "int i + 1 \<le> depth_of (relax (u, c) D) c"
proof -
  from lo u have du: "int i \<le> depth_of D u"
    by (auto simp: depth_lower_def)
  have cl: "c \<in> layer g fwd S (nat (depth_of D u + 1))"
  proof (cases "depth_of D u = 0")
    case True
    with du have "i = 0" by simp
    with u e have "c \<in> layer g fwd S (Suc 0)"
      unfolding layer_Suc' by auto
    with True show ?thesis by simp
  next
    case False
    with up have "0 < depth_of D u" "u \<in> layer g fwd S (nat (depth_of D u))"
      by (auto simp: depth_upper_def)
    with e have "c \<in> layer g fwd S (Suc (nat (depth_of D u)))"
      unfolding layer_Suc' by auto
    moreover from \<open>0 < depth_of D u\<close> have "Suc (nat (depth_of D u)) = nat (depth_of D u + 1)"
      by simp
    ultimately show ?thesis by simp
  qed
  show "depth_upper g fwd S (relax (u, c) D)"
    unfolding depth_upper_def
  proof (intro allI impI)
    fix v assume nz: "depth_of (relax (u, c) D) v \<noteq> 0"
    show "0 < depth_of (relax (u, c) D) v \<and>
          v \<in> layer g fwd S (nat (depth_of (relax (u, c) D) v))"
    proof (cases "v = c \<and> depth_of D c \<le> depth_of D u")
      case True
      with du cl show ?thesis by (simp add: depth_of_relax)
    next
      case False
      then have "depth_of (relax (u, c) D) v = depth_of D v"
        by (simp add: depth_of_relax)
      with nz up show ?thesis by (simp add: depth_upper_def)
    qed
  qed
  show "\<forall>v. depth_of D v \<le> depth_of (relax (u, c) D) v"
    by (simp add: depth_of_relax)
  from du show "int i + 1 \<le> depth_of (relax (u, c) D) c"
    by (simp add: depth_of_relax)
qed

lemma depth_lower_mono:
  "depth_lower g fwd S i D \<Longrightarrow> \<forall>v. depth_of D v \<le> depth_of D' v \<Longrightarrow> depth_lower g fwd S i D'"
  unfolding depth_lower_def by (meson order_trans)

lemma fold_relax_layer:
  assumes "depth_upper g fwd S D" and "depth_lower g fwd S i D"
    and "\<forall>e \<in> set es. fst e \<in> layer g fwd S i \<and> e \<in> edge_rel g fwd"
  shows "depth_upper g fwd S (fold relax es D) \<and>
         (\<forall>v. depth_of D v \<le> depth_of (fold relax es D) v) \<and>
         (\<forall>e \<in> set es. int i + 1 \<le> depth_of (fold relax es D) (snd e))"
  using assms
proof (induction es arbitrary: D)
  case Nil
  then show ?case by simp
next
  case (Cons e es)
  obtain u c where e: "e = (u, c)" by (cases e)
  with Cons.prems have u: "u \<in> layer g fwd S i" and uc: "(u, c) \<in> edge_rel g fwd"
    by auto
  note st = relax_step [OF Cons.prems(1,2) u uc]
  have lo: "depth_lower g fwd S i (relax e D)"
    using Cons.prems(2) st(2) unfolding e by (rule depth_lower_mono)
  have "depth_upper g fwd S (fold relax es (relax e D)) \<and>
         (\<forall>v. depth_of (relax e D) v \<le> depth_of (fold relax es (relax e D)) v) \<and>
         (\<forall>e' \<in> set es. int i + 1 \<le> depth_of (fold relax es (relax e D)) (snd e'))"
    using Cons.IH [OF _ lo] st(1) Cons.prems(3) unfolding e by simp
  moreover have "int i + 1 \<le> depth_of (relax e D) (snd e)"
    using st(3) by (simp add: e)
  ultimately show ?case
    using st(2) unfolding e by (auto intro: order_trans)
qed

lemma set_layer_edges:
  "set (concat (map (\<lambda>u. map (Pair u) (adj_dir g fwd u)) cs)) =
     {(u, c). u \<in> set cs \<and> (u, c) \<in> edge_rel g fwd}"
  by (auto simp: adj_edge_rel)

lemma fold_relax_lower_Suc:
  assumes up: "depth_upper g fwd S D" and lo: "depth_lower g fwd S i D"
    and cs: "set cs = layer g fwd S i"
  shows "depth_upper g fwd S (fold relax (concat (map (\<lambda>u. map (Pair u) (adj_dir g fwd u)) cs)) D)"
    and "depth_lower g fwd S (Suc i) (fold relax (concat (map (\<lambda>u. map (Pair u) (adj_dir g fwd u)) cs)) D)"
proof -
  let ?es = "concat (map (\<lambda>u. map (Pair u) (adj_dir g fwd u)) cs)"
  have es: "\<forall>e \<in> set ?es. fst e \<in> layer g fwd S i \<and> e \<in> edge_rel g fwd"
    unfolding set_layer_edges using cs by auto
  note f = fold_relax_layer [OF up lo es]
  from f show "depth_upper g fwd S (fold relax ?es D)" by simp
  from f have mono: "\<forall>v. depth_of D v \<le> depth_of (fold relax ?es D) v" by simp
  have lo': "depth_lower g fwd S i (fold relax ?es D)"
    using lo mono by (rule depth_lower_mono)
  have "int (Suc i) \<le> depth_of (fold relax ?es D) v" if "v \<in> layer g fwd S (Suc i)" for v
  proof -
    from that obtain u where "u \<in> layer g fwd S i" "(u, v) \<in> edge_rel g fwd"
      unfolding layer_Suc' by auto
    with cs have "(u, v) \<in> set ?es" unfolding set_layer_edges by simp
    with f have "int i + 1 \<le> depth_of (fold relax ?es D) (snd (u, v))" by blast
    then show ?thesis by simp
  qed
  with lo' show "depth_lower g fwd S (Suc i) (fold relax ?es D)"
    unfolding depth_lower_def by (auto simp: le_Suc_eq)
qed

lemma layer_empty_mono: "layer g fwd S k = {} \<Longrightarrow> k \<le> k' \<Longrightarrow> layer g fwd S k' = {}"
  unfolding layer_def by (rule relpow_Image_empty_mono)

lemma trace_loop_unfold_Inr:
  assumes "set_iteration iter" and "set cur \<subseteq> set (nodes g)" and "cur \<noteq> []"
  shows "trace_loop iter (neighbors g fwd) i cur = Some (Inr ys) \<longleftrightarrow>
     (\<exists>zs. trace_loop iter (neighbors g fwd) (Suc i) (concat (map (adj_dir g fwd) (iter i cur)))
             = Some (Inr zs) \<and>
           ys = concat (map (\<lambda>u. map (Pair u) (adj_dir g fwd u)) (iter i cur)) @ zs)"
proof (cases "trace_loop iter (neighbors g fwd) (Suc i) (concat (map (adj_dir g fwd) (iter i cur)))")
  case None
  then show ?thesis
    unfolding trace_loop_unfold [OF assms] by simp
next
  case (Some r)
  then show ?thesis
    unfolding trace_loop_unfold [OF assms] by (cases r) auto
qed

lemma trace_loop_depth_empty:
  assumes "cur = []" and "set cur = layer g fwd S i"
    and "trace_loop iter (neighbors g fwd) i cur = Some (Inr ys)"
    and "depth_upper g fwd S D" and "depth_lower g fwd S i D"
  shows "depth_upper g fwd S (fold relax ys D) \<and> (\<forall>j. depth_lower g fwd S j (fold relax ys D))"
proof -
  from assms have ys: "ys = []" and e: "layer g fwd S i = {}"
    by (simp_all add: trace_loop_empty)
  have "depth_lower g fwd S j D" for j
    unfolding depth_lower_def
  proof (intro allI impI ballI)
    fix j' v assume "j' \<le> j" "v \<in> layer g fwd S j'"
    with e have "j' \<le> i" using layer_empty_mono [of g fwd S i j'] by (cases "j' \<le> i") auto
    with \<open>v \<in> layer g fwd S j'\<close> assms(5) show "int j' \<le> depth_of D v"
      by (auto simp: depth_lower_def)
  qed
  with ys assms(4) show ?thesis by simp
qed

lemma trace_loop_depth:
  assumes "set_iteration iter" and "wf_graph g"
  shows "layer g fwd (set cur) k = {} \<Longrightarrow> set cur \<subseteq> set (nodes g) \<Longrightarrow>
         set cur = layer g fwd S i \<Longrightarrow>
         trace_loop iter (neighbors g fwd) i cur = Some (Inr ys) \<Longrightarrow>
         depth_upper g fwd S D \<Longrightarrow> depth_lower g fwd S i D \<Longrightarrow>
         depth_upper g fwd S (fold relax ys D) \<and> (\<forall>j. depth_lower g fwd S j (fold relax ys D))"
proof (induction k arbitrary: i cur D ys)
  case 0
  then have "cur = []" by (simp add: layer_0)
  then show ?case using "0.prems"(3-6) by (rule trace_loop_depth_empty)
next
  case (Suc k)
  show ?case
  proof (cases "cur = []")
    case True
    then show ?thesis using Suc.prems(3-6) by (rule trace_loop_depth_empty)
  next
    case False
    let ?cs = "iter i cur"
    let ?es = "concat (map (\<lambda>u. map (Pair u) (adj_dir g fwd u)) ?cs)"
    let ?nxt = "concat (map (adj_dir g fwd) ?cs)"
    have it: "set ?cs = set cur"
      using assms(1) by (simp add: set_iteration_def)
    have nxt: "set ?nxt = edge_rel g fwd `` set cur"
      using it by (simp only: next_gen_set)
    from Suc.prems(4) obtain zs where
      zs: "trace_loop iter (neighbors g fwd) (Suc i) ?nxt = Some (Inr zs)" and ys: "ys = ?es @ zs"
      unfolding trace_loop_unfold_Inr [OF assms(1) Suc.prems(2) False] by blast
    have 1: "layer g fwd (set ?nxt) k = {}"
      using Suc.prems(1) unfolding nxt layer_Suc .
    have 2: "set ?nxt \<subseteq> set (nodes g)"
      using assms(2) by (rule next_gen_nodes)
    have 3: "set ?nxt = layer g fwd S (Suc i)"
      unfolding nxt layer_Suc' Suc.prems(3) ..
    have cs: "set ?cs = layer g fwd S i"
      using it Suc.prems(3) by simp
    note l = fold_relax_lower_Suc [OF Suc.prems(5,6) cs]
    from Suc.IH [OF 1 2 3 zs l] show ?thesis
      by (simp add: ys)
  qed
qed

lemma depth_upper_empty: "depth_upper g fwd S []"
  by (simp add: depth_upper_def depth_of_def)

lemma depth_lower_empty: "depth_lower g fwd S 0 []"
  by (simp add: depth_lower_def depth_of_def)

lemma infer_depth_layers:
  assumes "wf_graph g" and "is_dag g" and "set_iteration iter"
  shows "\<exists>D. infer_depth iter g fwd = Some (Inr D) \<and>
             depth_upper g fwd (set (start_nodes g fwd None)) D \<and>
             (\<forall>j. depth_lower g fwd (set (start_nodes g fwd None)) j D)"
proof -
  let ?src = "start_nodes g fwd None"
  have sub: "set ?src \<subseteq> set (nodes g)" by (rule start_nodes_default)
  from assms(1,2) obtain k where k: "layer g fwd (set ?src) k = {}"
    using layers_end_iff dag_no_cycle by blast
  with trace_loop_terminates [OF assms(3,1) sub, of fwd k 0] obtain ys
    where ys: "trace_loop iter (neighbors g fwd) 0 ?src = Some (Inr ys)" by blast
  have "set ?src = layer g fwd (set ?src) 0" by (simp add: layer_0)
  from trace_loop_depth [OF assms(3,1) k sub this ys depth_upper_empty depth_lower_empty]
  have "depth_upper g fwd (set ?src) (fold relax ys []) \<and>
        (\<forall>j. depth_lower g fwd (set ?src) j (fold relax ys []))" .
  moreover from ys have "infer_depth iter g fwd = Some (Inr (fold relax ys []))"
    by (simp add: infer_depth_def trace_edges_def)
  ultimately show ?thesis by blast
qed

lemma layer_mono: "S \<subseteq> T \<Longrightarrow> layer g fwd S k \<subseteq> layer g fwd T k"
  by (auto simp: layer_def)

lemma path_lengths_layer: "path_lengths g fwd v = {k. v \<in> layer g fwd (sources g fwd) k}"
  by (auto simp: path_lengths_def layer_def)

lemma adj_pred_empty: "adj_pred g n = [] \<longleftrightarrow> (\<forall>p. (p, n) \<notin> set (graph_edges g))"
  by (auto simp: adj_pred_def filter_empty_conv)

lemma adj_succ_empty: "adj_succ g n = [] \<longleftrightarrow> (\<forall>c. (n, c) \<notin> set (graph_edges g))"
  by (auto simp: adj_succ_def filter_empty_conv)

lemma sources_iff:
  "s \<in> sources g fwd \<longleftrightarrow> s \<in> set (nodes g) \<and> (\<forall>p. (p, s) \<notin> edge_rel g fwd)"
  by (auto simp: sources_def is_founder_def is_proband_def adj_pred_empty adj_succ_empty
      edge_rel_def)

lemma sources_subset_start: "sources g fwd \<subseteq> set (start_nodes g fwd None)"
  by (auto simp: sources_def is_founder_def is_proband_def start_nodes_def founders_def
      probands_def py_any_def)

lemma reach_from_source:
  assumes "wf_graph g" and "is_dag g"
  shows "n \<in> set (nodes g) \<Longrightarrow> \<exists>s \<in> sources g fwd. \<exists>m. (s, n) \<in> edge_rel g fwd ^^ m"
proof -
  have wf: "wf (edge_rel g fwd)"
    using finite_edge_rel acyclic_edge_rel [OF assms(2)] by (rule finite_acyclic_wf)
  show "n \<in> set (nodes g) \<Longrightarrow> \<exists>s \<in> sources g fwd. \<exists>m. (s, n) \<in> edge_rel g fwd ^^ m"
  proof (induction n rule: wf_induct_rule [OF wf])
    case (1 n)
    show ?case
    proof (cases "\<exists>p. (p, n) \<in> edge_rel g fwd")
      case True
      then obtain p where p: "(p, n) \<in> edge_rel g fwd" ..
      with assms(1) have "p \<in> set (nodes g)" by (auto dest: edge_rel_nodes)
      with p "1.IH" obtain s m where "s \<in> sources g fwd" "(s, p) \<in> edge_rel g fwd ^^ m"
        by blast
      with p have "(s, n) \<in> edge_rel g fwd ^^ Suc m" by auto
      with \<open>s \<in> sources g fwd\<close> show ?thesis by blast
    next
      case False
      with "1.prems" have "n \<in> sources g fwd" by (simp add: sources_iff)
      moreover have "(n, n) \<in> edge_rel g fwd ^^ 0" by simp
      ultimately show ?thesis by blast
    qed
  qed
qed

lemma depth_of_longest_path:
  assumes wf: "wf_graph g" and dag: "is_dag g"
    and up: "depth_upper g fwd (set (start_nodes g fwd None)) D"
    and lo: "\<forall>j. depth_lower g fwd (set (start_nodes g fwd None)) j D"
    and ne: "path_lengths g fwd v \<noteq> {}"
  shows "finite (path_lengths g fwd v)" and "depth_of D v = int (longest_path g fwd v)"
proof -
  let ?S = "set (start_nodes g fwd None)"
  let ?A = "path_lengths g fwd v"
  have bound: "int k \<le> depth_of D v" if "k \<in> ?A" for k
  proof -
    have "layer g fwd (sources g fwd) k \<subseteq> layer g fwd ?S k"
      by (rule layer_mono [OF sources_subset_start])
    with that have "v \<in> layer g fwd ?S k"
      by (auto simp: path_lengths_layer)
    with lo show ?thesis by (auto simp: depth_lower_def)
  qed
  have bound': "k \<le> nat (depth_of D v)" if "k \<in> ?A" for k
    using bound [OF that] by linarith
  then have "?A \<subseteq> {..nat (depth_of D v)}" by auto
  then show fin: "finite ?A" by (rule finite_subset) simp
  from ne obtain k0 where k0: "k0 \<in> ?A" by blast
  then have nonneg: "0 \<le> depth_of D v" using bound [of k0] by simp
  have "v \<in> layer g fwd ?S (nat (depth_of D v))"
  proof (cases "depth_of D v = 0")
    case True
    with bound [OF k0] have "k0 = 0" by simp
    with k0 have "v \<in> sources g fwd" by (simp add: path_lengths_layer layer_0)
    with True show ?thesis using sources_subset_start by (auto simp: layer_0)
  next
    case False
    with up show ?thesis by (simp add: depth_upper_def)
  qed
  then obtain s where s: "s \<in> ?S" "(s, v) \<in> edge_rel g fwd ^^ nat (depth_of D v)"
    by (auto simp: layer_def)
  from s(1) have "s \<in> set (nodes g)" using start_nodes_default by blast
  from reach_from_source [OF wf dag this] obtain f m
    where f: "f \<in> sources g fwd" "(f, s) \<in> edge_rel g fwd ^^ m" by blast
  with s(2) have "(f, v) \<in> edge_rel g fwd ^^ (m + nat (depth_of D v))"
    by (auto simp: relpow_add)
  with f(1) have "m + nat (depth_of D v) \<in> ?A" by (auto simp: path_lengths_def)
  with fin have "m + nat (depth_of D v) \<le> Max ?A" by simp
  then have "nat (depth_of D v) \<le> Max ?A" by simp
  moreover have "Max ?A \<le> nat (depth_of D v)"
    using fin ne bound' by simp
  ultimately show "depth_of D v = int (longest_path g fwd v)"
    using nonneg by (simp add: longest_path_def)
qed

lemma path_lengths_source:
  assumes "s \<in> sources g fwd"
  shows "path_lengths g fwd s = {0}"
proof -
  have "k = 0" if "(f, s) \<in> edge_rel g fwd ^^ k" for f k
  proof (cases k)
    case (Suc k')
    with that obtain p where "(p, s) \<in> edge_rel g fwd" by auto
    with assms show ?thesis by (simp add: sources_iff)
  qed simp
  moreover have "(s, s) \<in> edge_rel g fwd ^^ 0" by simp
  ultimately show ?thesis using assms by (auto simp: path_lengths_def)
qed

lemma depth_longest_path:
  assumes "wf_graph g" and "is_dag g" and "set_iteration iter"
  shows "\<exists>depth. infer_depth iter g forward = Some (Inr depth) \<and>
           (\<forall>v. path_lengths g forward v \<noteq> {} \<longrightarrow>
                depth_of depth v = int (longest_path g forward v)) \<and>
           (\<forall>s \<in> sources g forward. depth_of depth s = 0)"
proof -
  from infer_depth_layers [OF assms] obtain D where
    D: "infer_depth iter g forward = Some (Inr D)"
       "depth_upper g forward (set (start_nodes g forward None)) D"
       "\<forall>j. depth_lower g forward (set (start_nodes g forward None)) j D" by blast
  have l: "depth_of D v = int (longest_path g forward v)" if "path_lengths g forward v \<noteq> {}" for v
    using depth_of_longest_path(2) [OF assms(1,2) D(2,3) that] .
  have "depth_of D s = 0" if "s \<in> sources g forward" for s
    using l [of s] path_lengths_source [OF that] by (simp add: longest_path_def)
  with D(1) l show ?thesis by blast
qed

lemma path_lengths_nonempty:
  assumes "wf_graph g" and "is_dag g" and "n \<in> set (nodes g)"
  shows "path_lengths g fwd n \<noteq> {}"
  using reach_from_source [OF assms, of fwd] by (auto simp: path_lengths_def)

lemma path_lengths_edge:
  assumes "k \<in> path_lengths g fwd p" and "(p, c) \<in> edge_rel g fwd"
  shows "Suc k \<in> path_lengths g fwd c"
  using assms by (auto simp: path_lengths_def)

lemma path_lengths_Suc:
  assumes "Suc k \<in> path_lengths g fwd c"
  shows "\<exists>p. (p, c) \<in> edge_rel g fwd \<and> k \<in> path_lengths g fwd p"
  using assms by (auto simp: path_lengths_def)

lemma infer_depth_all_nodes:
  assumes "wf_graph g" and "is_dag g" and "set_iteration iter"
  shows "\<exists>D. infer_depth iter g fwd = Some (Inr D) \<and>
             (\<forall>v \<in> set (nodes g). finite (path_lengths g fwd v) \<and> path_lengths g fwd v \<noteq> {} \<and>
                 depth_of D v = int (longest_path g fwd v))"
proof -
  from infer_depth_layers [OF assms] obtain D where
    D: "infer_depth iter g fwd = Some (Inr D)"
       "depth_upper g fwd (set (start_nodes g fwd None)) D"
       "\<forall>j. depth_lower g fwd (set (start_nodes g fwd None)) j D" by blast
  have "finite (path_lengths g fwd v) \<and> path_lengths g fwd v \<noteq> {} \<and>
        depth_of D v = int (longest_path g fwd v)" if "v \<in> set (nodes g)" for v
    using depth_of_longest_path [OF assms(1,2) D(2,3)] path_lengths_nonempty [OF assms(1,2) that]
    by blast
  with D(1) show ?thesis by blast
qed

lemma longest_path_edge:
  assumes "finite (path_lengths g fwd p)" "path_lengths g fwd p \<noteq> {}"
    and "finite (path_lengths g fwd c)" and "(p, c) \<in> edge_rel g fwd"
  shows "Suc (longest_path g fwd p) \<le> longest_path g fwd c"
proof -
  from assms(1,2) have "longest_path g fwd p \<in> path_lengths g fwd p"
    unfolding longest_path_def by (rule Max_in)
  then have "Suc (longest_path g fwd p) \<in> path_lengths g fwd c"
    using assms(4) by (rule path_lengths_edge)
  with assms(3) show ?thesis
    unfolding longest_path_def by simp
qed

lemma depth_edges:
  assumes "wf_graph g" and "is_dag g" and "set_iteration iter"
  shows "\<exists>depth. infer_depth iter g True = Some (Inr depth) \<and>
           (\<forall>e \<in> set (graph_edges g). depth_of depth (fst e) + 1 \<le> depth_of depth (snd e)) \<and>
           (\<forall>c. adj_pred g c \<noteq> [] \<longrightarrow>
                (\<exists>p \<in> set (adj_pred g c). depth_of depth c = depth_of depth p + 1))"
proof -
  from infer_depth_all_nodes [OF assms, of True] obtain D where
    D: "infer_depth iter g True = Some (Inr D)"
    and all: "\<And>v. v \<in> set (nodes g) \<Longrightarrow>
        finite (path_lengths g True v) \<and> path_lengths g True v \<noteq> {} \<and>
        depth_of D v = int (longest_path g True v)" by blast
  have edge: "depth_of D p + 1 \<le> depth_of D c" if "(p, c) \<in> edge_rel g True" for p c
  proof -
    from that assms(1) have "p \<in> set (nodes g)" "c \<in> set (nodes g)"
      by (auto dest: edge_rel_nodes)
    with all [of p] all [of c] longest_path_edge [of g True p c] that show ?thesis
      by simp
  qed
  have eq: "\<exists>p \<in> set (adj_pred g c). depth_of D c = depth_of D p + 1" if "adj_pred g c \<noteq> []" for c
  proof -
    from that obtain p0 where p0: "(p0, c) \<in> edge_rel g True"
      by (auto simp: adj_pred_empty edge_rel_def)
    with assms(1) have c: "c \<in> set (nodes g)" by (auto dest: edge_rel_nodes)
    from all [OF c] have "longest_path g True c \<in> path_lengths g True c"
      unfolding longest_path_def by (simp add: Max_in)
    moreover from edge [OF p0] all [OF c] p0 assms(1) all [of p0]
    have "0 < longest_path g True c" by (auto dest: edge_rel_nodes)
    ultimately obtain m where m: "longest_path g True c = Suc m"
      and "Suc m \<in> path_lengths g True c" by (cases "longest_path g True c") auto
    then obtain p where p: "(p, c) \<in> edge_rel g True" "m \<in> path_lengths g True p"
      using path_lengths_Suc by blast
    with assms(1) have pn: "p \<in> set (nodes g)" by (auto dest: edge_rel_nodes)
    from p(2) all [OF pn] have "m \<le> longest_path g True p"
      unfolding longest_path_def by simp
    moreover from edge [OF p(1)] all [OF pn] all [OF c] m have "longest_path g True p \<le> m"
      by simp
    ultimately have "depth_of D c = depth_of D p + 1"
      using all [OF pn] all [OF c] m by simp
    moreover from p(1) have "p \<in> set (adj_pred g c)"
      by (force simp: adj_pred_def edge_rel_def)
    ultimately show ?thesis by blast
  qed
  from D edge eq show ?thesis
    by (auto simp: edge_rel_def)
qed

text \<open>
  C6. On every DAG the forward depths satisfy \<open>depth[child] \<ge> depth[parent] + 1\<close> for
  every edge, and every node with a parent has a parent for which equality holds.
\<close>

theorem infer_depth_edges:
  assumes "wf_graph g" and "is_dag g" and "set_iteration iter"
  shows "\<exists>depth. infer_depth iter g True = Some (Inr depth) \<and>
           (\<forall>e \<in> set (graph_edges g). depth_of depth (fst e) + 1 \<le> depth_of depth (snd e)) \<and>
           (\<forall>c. adj_pred g c \<noteq> [] \<longrightarrow>
                (\<exists>p \<in> set (adj_pred g c). depth_of depth c = depth_of depth p + 1))"
  using assms by (rule depth_edges)

lemma wf_graph_diamond: "distinct [F, A, B, C] \<Longrightarrow> wf_graph (diamond F A B C)"
  by (simp add: wf_graph_def diamond_def nodes_def)

lemma is_dag_diamond:
  assumes "distinct [F, A, B, C]"
  shows "is_dag (diamond F A B C)"
proof -
  have "acyclic {(F, A), (F, B), (A, C), (B, C)}"
    by (rule acyclicI_order [where f = "\<lambda>x. if x = F then 3 else if x = C then 1 else (2::nat)"])
      (use assms in auto)
  then show ?thesis by (simp add: is_dag_def diamond_def)
qed

theorem infer_depth_edges_witness:
  "wf_graph (diamond 1 2 3 4) \<and> is_dag (diamond 1 2 3 4) \<and> set_iteration insertion_order \<and>
   (1, 2) \<in> set (graph_edges (diamond 1 2 3 4)) \<and> adj_pred (diamond 1 2 3 4) 4 \<noteq> [] \<and>
   (\<exists>depth. infer_depth insertion_order (diamond 1 2 3 4) True = Some (Inr depth) \<and>
      depth_of depth 1 + 1 \<le> depth_of depth 2 \<and>
      (\<exists>p \<in> set (adj_pred (diamond 1 2 3 4) 4). depth_of depth 4 = depth_of depth p + 1))"
proof -
  have w: "wf_graph (diamond 1 2 3 4)" by (simp add: wf_graph_diamond)
  have d: "is_dag (diamond 1 2 3 4)" by (simp add: is_dag_diamond)
  have e: "(1, 2) \<in> set (graph_edges (diamond 1 2 3 4))" by (simp add: diamond_def)
  have a: "adj_pred (diamond 1 2 3 4) 4 \<noteq> []" by (simp add: diamond_def adj_pred_def)
  from infer_depth_edges [OF w d set_iteration_insertion_order] obtain depth where
    "infer_depth insertion_order (diamond 1 2 3 4) True = Some (Inr depth)"
    "\<forall>e \<in> set (graph_edges (diamond 1 2 3 4)). depth_of depth (fst e) + 1 \<le> depth_of depth (snd e)"
    "\<forall>c. adj_pred (diamond 1 2 3 4) c \<noteq> [] \<longrightarrow>
         (\<exists>p \<in> set (adj_pred (diamond 1 2 3 4) c). depth_of depth c = depth_of depth p + 1)"
    by blast
  with e a have "infer_depth insertion_order (diamond 1 2 3 4) True = Some (Inr depth) \<and>
      depth_of depth 1 + 1 \<le> depth_of depth 2 \<and>
      (\<exists>p \<in> set (adj_pred (diamond 1 2 3 4) 4). depth_of depth 4 = depth_of depth p + 1)"
    by fastforce
  with w d e a set_iteration_insertion_order show ?thesis by blast
qed


subsection \<open>The keys of the depth mapping\<close>

lemma keys_dd_getitem:
  "fst ` set (snd (dd_getitem D k)) = insert k (fst ` set D)"
  "distinct (map fst D) \<Longrightarrow> distinct (map fst (snd (dd_getitem D k)))"
  by (auto simp: dd_getitem_def map_of_eq_None_iff image_iff split: option.splits
      dest!: map_of_SomeD) force+

lemma keys_update:
  "fst ` set (AList.update k v D) = insert k (fst ` set D)"
  using dom_update [of k v D] by (simp add: dom_map_of_conv_image_fst)

lemma keys_relax:
  "fst ` set (relax (u, c) D) = insert u (insert c (fst ` set D))"
  "distinct (map fst D) \<Longrightarrow> distinct (map fst (relax (u, c) D))"
proof -
  obtain d D1 where 1: "dd_getitem D u = (d, D1)" by (cases "dd_getitem D u")
  obtain x D2 where 2: "dd_getitem D1 c = (x, D2)" by (cases "dd_getitem D1 c")
  from 1 have k1: "fst ` set D1 = insert u (fst ` set D)"
    using keys_dd_getitem(1) [of D u] by simp
  from 2 have k2: "fst ` set D2 = insert c (fst ` set D1)"
    using keys_dd_getitem(1) [of D1 c] by simp
  from 1 2 k1 k2 show "fst ` set (relax (u, c) D) = insert u (insert c (fst ` set D))"
    by (auto simp: relax_def keys_update)
  assume dist: "distinct (map fst D)"
  with 1 have "distinct (map fst D1)" using keys_dd_getitem(2) [of D u] by simp
  with 2 have "distinct (map fst D2)" using keys_dd_getitem(2) [of D1 c] by simp
  with 1 2 show "distinct (map fst (relax (u, c) D))"
    by (simp add: relax_def distinct_update)
qed

lemma keys_fold_relax:
  "fst ` set (fold relax ys D) = fst ` set D \<union> fst ` set ys \<union> snd ` set ys"
  "distinct (map fst D) \<Longrightarrow> distinct (map fst (fold relax ys D))"
proof (induction ys arbitrary: D)
  case Nil
  { case 1 show ?case by simp }
  { case 2 then show ?case by simp }
next
  case (Cons e ys)
  obtain u c where e: "e = (u, c)" by (cases e)
  { case 1 show ?case using Cons.IH(1) [of "relax e D"] by (auto simp: e keys_relax(1)) }
  { case 2 then show ?case using Cons.IH(2) [of "relax e D"] by (simp add: e keys_relax(2)) }
qed

lemma set_depth_dict:
  assumes "distinct (map fst D)"
  shows "set D = (\<lambda>v. (v, depth_of D v)) ` fst ` set D"
proof -
  have "depth_of D v = x" if "(v, x) \<in> set D" for v x
    using that assms by (simp add: depth_of_def)
  then show ?thesis by (force simp: image_iff)
qed

lemma rtrancl_Image_unfold: "R\<^sup>* `` S = S \<union> R\<^sup>* `` (R `` S)"
proof -
  have "R\<^sup>* = Id \<union> R O R\<^sup>*"
    by (metis rtrancl_unfold r_comp_rtrancl_eq rtrancl_trancl_reflcl trancl_unfold_left Un_commute)
  then have "R\<^sup>* `` S = (Id \<union> R O R\<^sup>*) `` S" by simp
  also have "\<dots> = S \<union> R\<^sup>* `` (R `` S)" by (simp add: Image_Un relcomp_Image Un_Image)
  finally show ?thesis .
qed

lemma trace_loop_edges:
  assumes "set_iteration iter" and "wf_graph g"
  shows "layer g fwd (set cur) k = {} \<Longrightarrow> set cur \<subseteq> set (nodes g) \<Longrightarrow>
         trace_loop iter (neighbors g fwd) i cur = Some (Inr ys) \<Longrightarrow>
         set ys = {e \<in> edge_rel g fwd. fst e \<in> (edge_rel g fwd)\<^sup>* `` set cur}"
proof (induction k arbitrary: i cur ys)
  case 0
  then have "cur = []" by (simp add: layer_0)
  with 0 show ?case by (simp add: trace_loop_empty)
next
  case (Suc k)
  show ?case
  proof (cases "cur = []")
    case True
    with Suc.prems show ?thesis by (simp add: trace_loop_empty)
  next
    case False
    let ?cs = "iter i cur"
    let ?es = "concat (map (\<lambda>u. map (Pair u) (adj_dir g fwd u)) ?cs)"
    let ?nxt = "concat (map (adj_dir g fwd) ?cs)"
    have it: "set ?cs = set cur"
      using assms(1) by (simp add: set_iteration_def)
    have nxt: "set ?nxt = edge_rel g fwd `` set cur"
      using it by (simp only: next_gen_set)
    from Suc.prems(3) obtain zs where
      zs: "trace_loop iter (neighbors g fwd) (Suc i) ?nxt = Some (Inr zs)" and ys: "ys = ?es @ zs"
      unfolding trace_loop_unfold_Inr [OF assms(1) Suc.prems(2) False] by blast
    have 1: "layer g fwd (set ?nxt) k = {}"
      using Suc.prems(1) unfolding nxt layer_Suc .
    have 2: "set ?nxt \<subseteq> set (nodes g)"
      using assms(2) by (rule next_gen_nodes)
    have "set zs = {e \<in> edge_rel g fwd. fst e \<in> (edge_rel g fwd)\<^sup>* `` (edge_rel g fwd `` set cur)}"
      using Suc.IH [OF 1 2 zs] unfolding nxt .
    moreover have "set ?es = {e \<in> edge_rel g fwd. fst e \<in> set cur}"
      unfolding set_layer_edges it by auto
    ultimately show ?thesis
      unfolding ys by (subst rtrancl_Image_unfold) auto
  qed
qed

lemma infer_depth_keys:
  assumes "wf_graph g" and "is_dag g" and "set_iteration iter"
    and "infer_depth iter g fwd = Some (Inr D)"
  shows "distinct (map fst D)"
    and "fst ` set D = Field {e \<in> edge_rel g fwd.
            fst e \<in> (edge_rel g fwd)\<^sup>* `` set (start_nodes g fwd None)}"
proof -
  let ?src = "start_nodes g fwd None"
  have sub: "set ?src \<subseteq> set (nodes g)" by (rule start_nodes_default)
  from assms(1,2) obtain k where k: "layer g fwd (set ?src) k = {}"
    using layers_end_iff dag_no_cycle by blast
  with trace_loop_terminates [OF assms(3,1) sub, of fwd k 0] obtain ys
    where ys: "trace_loop iter (neighbors g fwd) 0 ?src = Some (Inr ys)" by blast
  with assms(4) have D: "D = fold relax ys []"
    by (simp add: infer_depth_def trace_edges_def)
  show "distinct (map fst D)" unfolding D by (rule keys_fold_relax(2)) simp
  have "fst ` set D = fst ` set ys \<union> snd ` set ys"
    unfolding D by (simp add: keys_fold_relax(1))
  also have "\<dots> = Field (set ys)" by (auto simp: Field_def Domain_fst Range_snd)
  finally show "fst ` set D = Field {e \<in> edge_rel g fwd.
            fst e \<in> (edge_rel g fwd)\<^sup>* `` set (start_nodes g fwd None)}"
    unfolding trace_loop_edges [OF assms(3,1) k sub ys] .
qed

lemma dag_edges_reached:
  assumes "wf_graph g" and "is_dag g"
  shows "{e \<in> edge_rel g fwd. fst e \<in> (edge_rel g fwd)\<^sup>* `` set (start_nodes g fwd None)}
           = edge_rel g fwd"
proof -
  have "fst e \<in> (edge_rel g fwd)\<^sup>* `` set (start_nodes g fwd None)" if "e \<in> edge_rel g fwd" for e
  proof -
    from that assms(1) have "fst e \<in> set (nodes g)"
      using edge_rel_nodes [of g "fst e" "snd e" fwd] by simp
    from reach_from_source [OF assms this, of fwd] obtain s m
      where s: "s \<in> sources g fwd" "(s, fst e) \<in> edge_rel g fwd ^^ m" by blast
    from s(2) have "(s, fst e) \<in> (edge_rel g fwd)\<^sup>*" by (rule relpow_imp_rtrancl)
    moreover from s(1) have "s \<in> set (start_nodes g fwd None)"
      using sources_subset_start by blast
    ultimately show ?thesis by blast
  qed
  then show ?thesis by blast
qed

text \<open>
  C1, as amended. On every finite DAG, \<open>infer_depth\<close> returns, in either direction, a
  mapping whose entries are exactly the nodes that have at least one edge, each with
  the length of the longest directed path from any source to it (from a founder going
  forward, from a proband going backward over the reversed edges). So every source
  that has an edge is stored with depth \<open>0\<close>; a node without any edge, which is a
  founder and a proband at once, gets no entry.
\<close>

theorem infer_depth_entries:
  assumes "wf_graph g" and "is_dag g" and "set_iteration iter"
  shows "\<exists>depth. infer_depth iter g forward = Some (Inr depth) \<and> distinct (map fst depth) \<and>
           set depth = (\<lambda>v. (v, int (longest_path g forward v))) ` Field (edge_rel g forward) \<and>
           (\<forall>s \<in> sources g forward.
               if s \<in> Field (edge_rel g forward) then (s, 0) \<in> set depth
               else s \<notin> fst ` set depth)"
proof -
  let ?R = "edge_rel g forward"
  from infer_depth_all_nodes [OF assms, of forward] obtain D where
    D: "infer_depth iter g forward = Some (Inr D)"
    and all: "\<And>v. v \<in> set (nodes g) \<Longrightarrow> depth_of D v = int (longest_path g forward v)"
    by blast
  note keys = infer_depth_keys [OF assms D]
  from keys(2) have k: "fst ` set D = Field ?R"
    unfolding dag_edges_reached [OF assms(1,2)] .
  have sub: "v \<in> set (nodes g)" if "v \<in> Field ?R" for v
    using that assms(1) by (auto simp: Field_def dest: edge_rel_nodes)
  have "set D = (\<lambda>v. (v, depth_of D v)) ` Field ?R"
    using set_depth_dict [OF keys(1)] k by simp
  also have "\<dots> = (\<lambda>v. (v, int (longest_path g forward v))) ` Field ?R"
    by (rule image_cong) (simp_all add: all sub)
  finally have items: "set D = (\<lambda>v. (v, int (longest_path g forward v))) ` Field ?R" .
  have "if s \<in> Field ?R then (s, 0) \<in> set D else s \<notin> fst ` set D"
    if "s \<in> sources g forward" for s
  proof (cases "s \<in> Field ?R")
    case True
    from path_lengths_source [OF that] have "longest_path g forward s = 0"
      by (simp add: longest_path_def)
    with True items show ?thesis by force
  next
    case False
    with k show ?thesis by simp
  qed
  with D keys(1) items show ?thesis by blast
qed

lemma wf_graph_four_nodes: "wf_graph four_nodes"
  by (simp add: wf_graph_def four_nodes_def nodes_def)

lemma is_dag_four_nodes: "is_dag four_nodes"
proof -
  have "acyclic {(1::int, 3::int), (3, 2)}"
    by (rule acyclicI_order [where f = "\<lambda>x. if x = 1 then 3 else if x = 3 then 2 else (1::nat)"])
      auto
  then show ?thesis by (simp add: is_dag_def four_nodes_def)
qed

lemma four_nodes_Field: "Field (edge_rel four_nodes fwd) = {1, 2, 3}"
  by (auto simp: edge_rel_def four_nodes_def Field_def)

theorem infer_depth_entries_witness:
  "wf_graph four_nodes \<and> is_dag four_nodes \<and> set_iteration insertion_order \<and>
   1 \<in> sources four_nodes True \<and> 1 \<in> Field (edge_rel four_nodes True) \<and>
   0 \<in> sources four_nodes True \<and> 0 \<notin> Field (edge_rel four_nodes True) \<and>
   infer_depth insertion_order four_nodes True = Some (Inr [(1, 0), (3, 1), (2, 2)]) \<and>
   set [(1::int, 0::int), (3, 1), (2, 2)] =
     (\<lambda>v. (v, int (longest_path four_nodes True v))) ` Field (edge_rel four_nodes True) \<and>
   2 \<in> sources four_nodes False \<and> 2 \<in> Field (edge_rel four_nodes False) \<and>
   infer_depth insertion_order four_nodes False = Some (Inr [(2, 0), (3, 1), (1, 2)]) \<and>
   set [(2::int, 0::int), (3, 1), (1, 2)] =
     (\<lambda>v. (v, int (longest_path four_nodes False v))) ` Field (edge_rel four_nodes False)"
proof -
  note w = wf_graph_four_nodes and d = is_dag_four_nodes and i = set_iteration_insertion_order
  have src: "1 \<in> sources four_nodes True" "0 \<in> sources four_nodes True"
    "2 \<in> sources four_nodes False"
    by (simp_all add: sources_def is_founder_def is_proband_def four_nodes_def nodes_def
        adj_pred_def adj_succ_def)
  have fld: "1 \<in> Field (edge_rel four_nodes True)" "0 \<notin> Field (edge_rel four_nodes True)"
    "2 \<in> Field (edge_rel four_nodes False)"
    by (simp_all add: four_nodes_Field)
  have f: "infer_depth insertion_order four_nodes True = Some (Inr [(1, 0), (3, 1), (2, 2)])"
    by code_simp
  have b: "infer_depth insertion_order four_nodes False = Some (Inr [(2, 0), (3, 1), (1, 2)])"
    by code_simp
  from infer_depth_entries [OF w d i, of True] f
  have 1: "set [(1::int, 0::int), (3, 1), (2, 2)] =
     (\<lambda>v. (v, int (longest_path four_nodes True v))) ` Field (edge_rel four_nodes True)"
    by auto
  from infer_depth_entries [OF w d i, of False] b
  have 2: "set [(2::int, 0::int), (3, 1), (1, 2)] =
     (\<lambda>v. (v, int (longest_path four_nodes False v))) ` Field (edge_rel four_nodes False)"
    by auto
  from w d i src fld f b 1 2 show ?thesis by blast
qed

text \<open>
  The claim as stated, that every founder is assigned depth \<open>0\<close> and every node reachable
  from a founder its longest path length, fails for an isolated node: on the graph
  \<open>four_nodes\<close> node \<open>0\<close> is a founder, reachable from itself by the path of length \<open>0\<close>,
  and the returned mapping has no entry for it.
\<close>

theorem infer_depth_isolated_counterexample:
  "wf_graph four_nodes \<and> is_dag four_nodes \<and> is_founder four_nodes 0 \<and>
   0 \<in> path_lengths four_nodes True 0 \<and>
   infer_depth insertion_order four_nodes True = Some (Inr [(1, 0), (3, 1), (2, 2)]) \<and>
   map_of [(1::int, 0::int), (3, 1), (2, 2)] 0 = None"
proof -
  have f: "is_founder four_nodes 0"
    by (simp add: is_founder_def four_nodes_def nodes_def adj_pred_def)
  then have "0 \<in> sources four_nodes True" by (simp add: sources_def)
  then have "0 \<in> path_lengths four_nodes True 0"
    using path_lengths_source by blast
  moreover have "infer_depth insertion_order four_nodes True = Some (Inr [(1, 0), (3, 1), (2, 2)])"
    by code_simp
  ultimately show ?thesis
    using f wf_graph_four_nodes is_dag_four_nodes by simp
qed

section \<open>Properties of the path count\<close>

text \<open>
  C4. On the graph with the single edge \<open>1 \<rightarrow> 0\<close> the only proband is node \<open>0\<close>, and there
  is one path from node \<open>1\<close> to it. \<open>probands()\<close> tests \<open>not any(G.successors(n))\<close>, which
  also holds for node \<open>1\<close>, whose only child is the falsy node \<open>0\<close>; so node \<open>1\<close> is taken
  for a target and its entry counts one path to itself and none to node \<open>0\<close>.
\<close>

theorem num_paths_edge_to_zero:
  "wf_graph edge_to_zero \<and> is_dag edge_to_zero \<and>
   is_proband edge_to_zero 0 \<and> \<not> is_proband edge_to_zero 1 \<and>
   (1, 0) \<in> set (graph_edges edge_to_zero) \<and>
   probands edge_to_zero = [1, 0] \<and>
   get_num_paths_to_target insertion_order edge_to_zero Default True
     = Some (Inr [(0, [(0, 1)]), (1, [(1, 1)])])"
proof -
  have "acyclic {(1::int, 0::int)}"
    by (rule acyclicI_order [where f = id]) simp
  then have "is_dag edge_to_zero"
    by (simp add: is_dag_def edge_to_zero_def)
  moreover have "wf_graph edge_to_zero"
    by (simp add: wf_graph_def edge_to_zero_def nodes_def)
  moreover have "is_proband edge_to_zero 0" "\<not> is_proband edge_to_zero 1"
    by (simp_all add: is_proband_def edge_to_zero_def nodes_def adj_succ_def)
  moreover have "probands edge_to_zero = [1, 0]"
    by (simp add: probands_def edge_to_zero_def nodes_def adj_succ_def py_any_def truthy_def)
  moreover have "get_num_paths_to_target insertion_order edge_to_zero Default True
     = Some (Inr [(0, [(0, 1)]), (1, [(1, 1)])])"
    by code_simp
  ultimately show ?thesis
    by (simp add: edge_to_zero_def)
qed

subsection \<open>The diamond scenario\<close>

lemma four_sorted:
  fixes k :: "int \<Rightarrow> int"
  assumes d: "distinct xs" and s: "set xs = {F, A, B, C}" and dn: "distinct [F, A, B, C]"
    and so: "sorted (map k xs)" and k: "k C < k A" "k A = k B" "k A < k F"
  shows "xs = [C, A, B, F] \<or> xs = [C, B, A, F]"
proof -
  from d s dn have "length xs = 4"
    using distinct_card [of xs] by simp
  then obtain x1 x2 x3 x4 where xs: "xs = [x1, x2, x3, x4]"
    by (auto simp: length_Suc_conv numeral_eq_Suc)
  from so have o: "k x1 \<le> k x2" "k x2 \<le> k x3" "k x3 \<le> k x4"
    by (simp_all add: xs)
  from s have m: "x1 \<in> {F, A, B, C}" "x2 \<in> {F, A, B, C}" "x3 \<in> {F, A, B, C}" "x4 \<in> {F, A, B, C}"
    by (auto simp: xs)
  from s xs have c: "C \<in> {x1, x2, x3, x4}" "F \<in> {x1, x2, x3, x4}" "A \<in> {x1, x2, x3, x4}"
    "B \<in> {x1, x2, x3, x4}" by auto
  have "x1 = C"
  proof (rule ccontr)
    assume "x1 \<noteq> C"
    with m(1) k have "k C < k x1" by auto
    moreover from c(1) \<open>x1 \<noteq> C\<close> o have "k x1 \<le> k C" by auto
    ultimately show False by simp
  qed
  have "x4 = F"
  proof (rule ccontr)
    assume "x4 \<noteq> F"
    with m(4) k have "k x4 < k F" by auto
    moreover from c(2) \<open>x4 \<noteq> F\<close> o have "k F \<le> k x4" by auto
    ultimately show False by simp
  qed
  from d xs \<open>x1 = C\<close> \<open>x4 = F\<close> m(2,3) c(3,4) dn show ?thesis
    by auto
qed

lemma diamond_adj:
  assumes "distinct [F, A, B, C]"
  shows "adj_pred (diamond F A B C) F = []" "adj_pred (diamond F A B C) A = [F]"
    "adj_pred (diamond F A B C) B = [F]" "adj_pred (diamond F A B C) C = [A, B]"
    "adj_succ (diamond F A B C) F = [A, B]" "adj_succ (diamond F A B C) A = [C]"
    "adj_succ (diamond F A B C) B = [C]" "adj_succ (diamond F A B C) C = []"
  using assms by (auto simp: diamond_def adj_pred_def adj_succ_def)

lemma diamond_nodes: "nodes (diamond F A B C) = [F, A, B, C]"
  by (simp add: diamond_def nodes_def)

lemma diamond_edge_rel: "edge_rel (diamond F A B C) True = {(F, A), (F, B), (A, C), (B, C)}"
  by (simp add: edge_rel_def diamond_def)

lemma diamond_successors:
  assumes "distinct [F, A, B, C]"
  shows "successors (diamond F A B C) F 1 False False = Inr [A, B]"
    "successors (diamond F A B C) A 1 False False = Inr [C]"
    "successors (diamond F A B C) B 1 False False = Inr [C]"
    "successors (diamond F A B C) C 1 False False = Inr []"
  using assms
  by (auto simp: successors_def shortest_path_length_def diamond_nodes diamond_adj
      first_seen_def sssp_levels_step sssp_levels_stop)

lemma diamond_depth:
  assumes dn: "distinct [F, A, B, C]" and it: "set_iteration iter"
  shows "\<exists>d. infer_depth iter (diamond F A B C) True = Some (Inr d) \<and> distinct (map fst d) \<and>
             set d = {(F, 0), (A, 1), (B, 1), (C, 2)}"
proof -
  let ?g = "diamond F A B C"
  note w = wf_graph_diamond [OF dn] and dag = is_dag_diamond [OF dn]
  from depth_edges [OF w dag it] obtain d where
    d: "infer_depth iter ?g True = Some (Inr d)"
    and eq: "\<And>c. adj_pred ?g c \<noteq> [] \<Longrightarrow> \<exists>p \<in> set (adj_pred ?g c). depth_of d c = depth_of d p + 1"
    by blast
  from infer_depth_all_nodes [OF w dag it, of True] d
  have lp: "depth_of d F = int (longest_path ?g True F)"
    by (simp add: diamond_nodes)
  have "F \<in> sources ?g True"
    using dn by (simp add: sources_def is_founder_def diamond_nodes diamond_adj)
  then have src: "F \<in> set (start_nodes ?g True None)" and "path_lengths ?g True F = {0}"
    using sources_subset_start path_lengths_source by blast+
  with lp have dF: "depth_of d F = 0" by (simp add: longest_path_def)
  from eq [of A] dn dF have dA: "depth_of d A = 1" by (simp add: diamond_adj)
  from eq [of B] dn dF have dB: "depth_of d B = 1" by (simp add: diamond_adj)
  from eq [of C] dn dA dB have dC: "depth_of d C = 2" by (auto simp: diamond_adj)
  note keys = infer_depth_keys [OF w dag it d]
  have reach: "fst e \<in> (edge_rel ?g True)\<^sup>* `` set (start_nodes ?g True None)"
    if "e \<in> edge_rel ?g True" for e
  proof -
    have "(F, F) \<in> (edge_rel ?g True)\<^sup>*" by simp
    moreover have "(F, A) \<in> (edge_rel ?g True)\<^sup>*" "(F, B) \<in> (edge_rel ?g True)\<^sup>*"
      by (auto simp: diamond_edge_rel)
    ultimately show ?thesis using that src by (auto simp: diamond_edge_rel)
  qed
  then have "{e \<in> edge_rel ?g True. fst e \<in> (edge_rel ?g True)\<^sup>* `` set (start_nodes ?g True None)}
      = edge_rel ?g True" by blast
  with keys(2) have "fst ` set d = Field (edge_rel ?g True)" by simp
  also have "\<dots> = {F, A, B, C}" by (auto simp: diamond_edge_rel Field_def)
  finally have k: "fst ` set d = {F, A, B, C}" .
  from set_depth_dict [OF keys(1)] k dF dA dB dC
  have "set d = {(F, 0), (A, 1), (B, 1), (C, 2)}" by simp
  with d keys(1) show ?thesis by blast
qed

lemma depth_of_item: "distinct (map fst d) \<Longrightarrow> (v, x) \<in> set d \<Longrightarrow> depth_of d v = x"
  by (simp add: depth_of_def)

lemma diamond_sorted:
  assumes dn: "distinct [F, A, B, C]" and "distinct (map fst d)"
    and "set d = {(F, 0), (A, 1), (B, 1), (C, 2)}"
  shows "sorted_by_depth_desc d = [C, A, B, F] \<or> sorted_by_depth_desc d = [C, B, A, F]"
proof -
  let ?k = "\<lambda>n. - depth_of d n"
  have v: "depth_of d F = 0" "depth_of d A = 1" "depth_of d B = 1" "depth_of d C = 2"
    using assms(3) by (auto intro!: depth_of_item [OF assms(2)])
  have "set (map fst d) = {F, A, B, C}" using assms(3) by (simp add: image_iff) 
  then show ?thesis
    unfolding sorted_by_depth_desc_def
    by (intro four_sorted [where k = ?k]) (use assms(2) dn v in \<open>simp_all add: sorted_sort_key\<close>)
qed

lemma diamond_pts:
  assumes dn: "distinct [F, A, B, C]"
  shows "pts_loop (diamond F A B C) [C] [C, A, B, F] [] =
           Inr [(C, [(C, 1)]), (A, [(C, 1)]), (B, [(C, 1)]), (F, [(C, 2)])]"
    and "pts_loop (diamond F A B C) [C] [C, B, A, F] [] =
           Inr [(C, [(C, 1)]), (B, [(C, 1)]), (A, [(C, 1)]), (F, [(C, 2)])]"
  using dn
  by (auto simp: diamond_successors counter_add_def counter_get_def)

text \<open>
  C5, as amended. On the diamond DAG (founder \<open>F\<close> with children \<open>A\<close> and \<open>B\<close>, and \<open>C\<close> the
  child of both), for every choice of distinct node identifiers and every iteration
  order, \<open>infer_depth(forward=True)\<close> returns the depths \<open>F:0, A:1, B:1, C:2\<close>, and
  \<open>get_num_paths_to_target(target=[C])\<close> with \<open>include_target\<close> left at its default
  returns the mapping whose entries are \<open>F\<close> with 2 paths to \<open>C\<close>, \<open>A\<close> with 1, \<open>B\<close> with 1
  and the target \<open>C\<close> itself with the entry \<open>{C: 1}\<close>.
\<close>

theorem diamond_scenario:
  assumes "distinct [F, A, B, C]" and "set_iteration iter"
  shows "(\<exists>d. infer_depth iter (diamond F A B C) True = Some (Inr d) \<and> distinct (map fst d) \<and>
              set d = {(F, 0), (A, 1), (B, 1), (C, 2)}) \<and>
         (\<exists>pts. get_num_paths_to_target iter (diamond F A B C) (Several [C]) True = Some (Inr pts) \<and>
              distinct (map fst pts) \<and>
              set pts = {(F, [(C, 2)]), (A, [(C, 1)]), (B, [(C, 1)]), (C, [(C, 1)])})"
proof -
  from diamond_depth [OF assms] obtain d where
    d: "infer_depth iter (diamond F A B C) True = Some (Inr d)" "distinct (map fst d)"
       "set d = {(F, 0), (A, 1), (B, 1), (C, 2)}" by blast
  from diamond_sorted [OF assms(1) d(2,3)]
  have "\<exists>pts. get_num_paths_to_target iter (diamond F A B C) (Several [C]) True = Some (Inr pts) \<and>
              distinct (map fst pts) \<and>
              set pts = {(F, [(C, 2)]), (A, [(C, 1)]), (B, [(C, 1)]), (C, [(C, 1)])}"
  proof
    assume "sorted_by_depth_desc d = [C, A, B, F]"
    then have "pts_loop (diamond F A B C) [C] (sorted_by_depth_desc d) [] =
           Inr [(C, [(C, 1)]), (A, [(C, 1)]), (B, [(C, 1)]), (F, [(C, 2)])]"
      using diamond_pts(1) [OF assms(1)] by (simp only:)
    with d(1) assms(1) show ?thesis
      by (auto simp: get_num_paths_to_target_def simp del: pts_loop.simps)
  next
    assume "sorted_by_depth_desc d = [C, B, A, F]"
    then have "pts_loop (diamond F A B C) [C] (sorted_by_depth_desc d) [] =
           Inr [(C, [(C, 1)]), (B, [(C, 1)]), (A, [(C, 1)]), (F, [(C, 2)])]"
      using diamond_pts(2) [OF assms(1)] by (simp only:)
    with d(1) assms(1) show ?thesis
      by (auto simp: get_num_paths_to_target_def simp del: pts_loop.simps)
  qed
  with d show ?thesis by blast
qed

theorem diamond_scenario_witness:
  "distinct [1::int, 2, 3, 4] \<and> set_iteration insertion_order \<and>
   (\<exists>d. infer_depth insertion_order (diamond 1 2 3 4) True = Some (Inr d) \<and> distinct (map fst d) \<and>
        set d = {(1, 0), (2, 1), (3, 1), (4, 2)}) \<and>
   (\<exists>pts. get_num_paths_to_target insertion_order (diamond 1 2 3 4) (Several [4]) True
            = Some (Inr pts) \<and>
        distinct (map fst pts) \<and>
        set pts = {(1, [(4, 2)]), (2, [(4, 1)]), (3, [(4, 1)]), (4, [(4, 1)])})"
proof -
  have d: "distinct [1::int, 2, 3, 4]" by simp
  from diamond_scenario [OF d set_iteration_insertion_order] d set_iteration_insertion_order
  show ?thesis by blast
qed

text \<open>
  The claim as stated, that the entries are those of \<open>F\<close>, \<open>A\<close> and \<open>B\<close> and no other node,
  fails on the diamond \<open>1, 2, 3, 4\<close>: the target \<open>4\<close> has an entry too.
\<close>

theorem diamond_target_counterexample:
  "\<not> (\<exists>pts. get_num_paths_to_target insertion_order (diamond 1 2 3 4) (Several [4]) True
              = Some (Inr pts) \<and> fst ` set pts = {1, 2, 3})"
proof
  assume "\<exists>pts. get_num_paths_to_target insertion_order (diamond 1 2 3 4) (Several [4]) True
              = Some (Inr pts) \<and> fst ` set pts = {1, 2, 3}"
  then obtain pts where
    pts: "get_num_paths_to_target insertion_order (diamond 1 2 3 4) (Several [4]) True
              = Some (Inr pts)" "fst ` set pts = {1, 2, 3}" by blast
  have "get_num_paths_to_target insertion_order (diamond 1 2 3 4) (Several [4]) True
      = Some (Inr [(4, [(4, 1)]), (2, [(4, 1)]), (3, [(4, 1)]), (1, [(4, 2)])])"
    by code_simp
  with pts(1) have "(4::int) \<in> fst ` set pts" by auto
  with pts(2) show False by simp
qed

section \<open>Properties of the similarity estimator\<close>

lemma for_loop_upt_aux:
  "a \<le> b \<Longrightarrow> I a s \<Longrightarrow>
   (\<And>k s. a \<le> k \<Longrightarrow> k < b \<Longrightarrow> I k s \<Longrightarrow> \<exists>s'. body k s = Inr s' \<and> I (Suc k) s') \<Longrightarrow>
   \<exists>s'. for_loop [a..<b] body s = Inr s' \<and> I b s'"
proof (induction "b - a" arbitrary: a s)
  case 0
  then show ?case by simp
next
  case (Suc d)
  then have lt: "a < b" by simp
  have "\<exists>s'. body a s = Inr s' \<and> I (Suc a) s'"
    using Suc.prems(3) [OF le_refl lt Suc.prems(2)] .
  then obtain s1 where s1: "body a s = Inr s1" "I (Suc a) s1" by auto
  from Suc.hyps(2) have d: "d = b - Suc a" by simp
  have "\<exists>s'. for_loop [Suc a..<b] body s1 = Inr s' \<and> I b s'"
  proof (rule Suc.hyps(1) [OF d _ s1(2)])
    show "Suc a \<le> b" using lt by simp
    show "\<exists>s'. body k s = Inr s' \<and> I (Suc k) s'" if "Suc a \<le> k" "k < b" "I k s" for k s
      using Suc.prems(3) [of k s] that by simp
  qed
  with s1(1) lt show ?case by (simp add: upt_conv_Cons)
qed

lemma for_loop_upt:
  assumes "\<And>k s. a \<le> k \<Longrightarrow> k < b \<Longrightarrow> I k s \<Longrightarrow> \<exists>s'. body k s = Inr s' \<and> I (Suc k) s'"
    and "a \<le> b" and "I a s"
  shows "\<exists>s'. for_loop [a..<b] body s = Inr s' \<and> I b s'"
  using assms(2,3,1) by (rule for_loop_upt_aux)

lemma upd2_apply:
  "((K((i, j) := v))((j, i) := v)) (a, b) =
     (if (a = i \<and> b = j) \<or> (a = j \<and> b = i) then v else K (a, b))"
  by (metis fun_upd_apply prod.inject)

lemma upd2_other:
  "\<not> (a = i \<and> b = j) \<Longrightarrow> \<not> (a = j \<and> b = i) \<Longrightarrow>
   ((K((i, j) := v))((j, i) := v)) (a, b) = K (a, b)"
  by (simp only: upd2_apply) (simp only: if_False simp_thms)

lemma upd2_same: "((K((i, j) := v))((j, i) := v)) (i, j) = v"
  by (simp only: upd2_apply) (simp only: if_True simp_thms)

lemma upd1_apply: "(K((i, i) := v)) (a, b) = (if a = i \<and> b = i then v else K (a, b))"
  by (metis fun_upd_apply prod.inject)

lemma upd1_other: "\<not> (a = i \<and> b = i) \<Longrightarrow> (K((i, i) := v)) (a, b) = K (a, b)"
  by (simp only: upd1_apply) (simp only: if_False simp_thms)

lemma upd1_same: "(K((i, i) := v)) (i, i) = v"
  by (simp only: upd1_apply) (simp only: if_True simp_thms)

lemma sim_inv_skip:
  assumes inv: "sim_inv fhalf fdiv2 C P n i j K" and nC: "\<not> C j" and ij: "i < j"
  shows "sim_inv fhalf fdiv2 C P n i (Suc j) K"
  unfolding sim_inv_def
proof (intro conjI allI impI)
  fix a assume "a < n \<and> (a < i \<or> a = i \<and> i < Suc j)"
  with inv ij show "K (a, a) = fhalf" by (simp add: sim_inv_def)
next
  fix a b
  from inv show "K (a, b) = K (b, a)" by (simp add: sim_inv_def)
next
  fix a b
  assume h: "a < b \<and> b < n \<and> (a < i \<or> a = i \<and> b < Suc j) \<and> C b"
  with nC have "b \<noteq> j" by auto
  with h have "a < b \<and> b < n \<and> (a < i \<or> a = i \<and> b < j) \<and> C b" by auto
  with inv show "K (a, b) = fdiv2 (K (a, P b))" unfolding sim_inv_def by blast
qed

lemma sim_inv_update:
  assumes inv: "sim_inv fhalf fdiv2 C P n i j K" and ij: "i < j"
    and v: "C j \<Longrightarrow> v = fdiv2 (K (i, P j))" and P: "\<And>b. C b \<Longrightarrow> P b < b"
  shows "sim_inv fhalf fdiv2 C P n i (Suc j) ((K((i, j) := v))((j, i) := v))"
  unfolding sim_inv_def
proof (intro conjI allI impI)
  fix a assume "a < n \<and> (a < i \<or> a = i \<and> i < Suc j)"
  with ij have "a < n \<and> (a < i \<or> a = i \<and> i < j)" by auto
  with inv have "K (a, a) = fhalf" unfolding sim_inv_def by blast
  moreover from ij have "\<not> (a = i \<and> a = j)" "\<not> (a = j \<and> a = i)" by auto
  then have "((K((i, j) := v))((j, i) := v)) (a, a) = K (a, a)" by (rule upd2_other)
  ultimately show "((K((i, j) := v))((j, i) := v)) (a, a) = fhalf"
    by (simp only:)
next
  fix a b
  from inv have sym: "K (a, b) = K (b, a)" by (simp add: sim_inv_def)
  have c: "((a = i \<and> b = j) \<or> (a = j \<and> b = i)) = ((b = i \<and> a = j) \<or> (b = j \<and> a = i))"
    by blast
  show "((K((i, j) := v))((j, i) := v)) (a, b) = ((K((i, j) := v))((j, i) := v)) (b, a)"
    by (simp only: upd2_apply c sym)
next
  fix a b
  assume h: "a < b \<and> b < n \<and> (a < i \<or> a = i \<and> b < Suc j) \<and> C b"
  then have Pb: "P b < b" using P by simp
  show "((K((i, j) := v))((j, i) := v)) (a, b) = fdiv2 (((K((i, j) := v))((j, i) := v)) (a, P b))"
  proof (cases "a = i \<and> b = j")
    case True
    with h v have "v = fdiv2 (K (i, P j))" by simp
    moreover from Pb True ij have "\<not> (i = i \<and> P j = j)" "\<not> (i = j \<and> P j = i)" by auto
    then have "((K((i, j) := v))((j, i) := v)) (i, P j) = K (i, P j)" by (rule upd2_other)
    ultimately show ?thesis using True by (simp only: upd2_same)
  next
    case False
    with h have d: "a < i \<or> a = i \<and> b < j" by auto
    with h have "a < b \<and> b < n \<and> (a < i \<or> a = i \<and> b < j) \<and> C b" by simp
    with inv have "K (a, b) = fdiv2 (K (a, P b))" unfolding sim_inv_def by blast
    moreover from d h ij have "\<not> (a = j \<and> b = i)" by auto
    with False have "((K((i, j) := v))((j, i) := v)) (a, b) = K (a, b)" by (rule upd2_other)
    moreover from d h ij Pb have "\<not> (a = i \<and> P b = j)" "\<not> (a = j \<and> P b = i)" by auto
    then have "((K((i, j) := v))((j, i) := v)) (a, P b) = K (a, P b)" by (rule upd2_other)
    ultimately show ?thesis by simp
  qed
qed

lemma sim_inv_row_start:
  assumes inv: "sim_inv fhalf fdiv2 C P n i i K" and P: "\<And>b. C b \<Longrightarrow> P b < b"
  shows "sim_inv fhalf fdiv2 C P n i (Suc i) (K((i, i) := fhalf))"
  unfolding sim_inv_def
proof (intro conjI allI impI)
  fix a assume h: "a < n \<and> (a < i \<or> a = i \<and> i < Suc i)"
  show "(K((i, i) := fhalf)) (a, a) = fhalf"
  proof (cases "a = i")
    case False
    with h have "a < n \<and> (a < i \<or> a = i \<and> i < i)" by simp
    with inv have "K (a, a) = fhalf" unfolding sim_inv_def by blast
    moreover from False have "\<not> (a = i \<and> a = i)" by simp
    then have "(K((i, i) := fhalf)) (a, a) = K (a, a)" by (rule upd1_other)
    ultimately show ?thesis by (simp only:)
  next
    case True
    then show ?thesis by (simp only: upd1_same)
  qed
next
  fix a b
  from inv have sym: "K (a, b) = K (b, a)" by (simp add: sim_inv_def)
  have c: "(a = i \<and> b = i) = (b = i \<and> a = i)" by blast
  show "(K((i, i) := fhalf)) (a, b) = (K((i, i) := fhalf)) (b, a)"
    by (simp only: upd1_apply c sym)
next
  fix a b
  assume h: "a < b \<and> b < n \<and> (a < i \<or> a = i \<and> b < Suc i) \<and> C b"
  then have "a < b \<and> b < n \<and> (a < i \<or> a = i \<and> b < i) \<and> C b" by auto
  with inv have "K (a, b) = fdiv2 (K (a, P b))" unfolding sim_inv_def by blast
  moreover from h have n: "\<not> (a = i \<and> b = i)" "\<not> (a = i \<and> P b = i)" by auto
  from n(1) have "(K((i, i) := fhalf)) (a, b) = K (a, b)" by (rule upd1_other)
  moreover from n(2) have "(K((i, i) := fhalf)) (a, P b) = K (a, P b)" by (rule upd1_other)
  ultimately show "(K((i, i) := fhalf)) (a, b) = fdiv2 ((K((i, i) := fhalf)) (a, P b))"
    by (simp only:)
qed

lemma sim_inv_row_end:
  assumes inv: "sim_inv fhalf fdiv2 C P n i n K" and "i < n"
  shows "sim_inv fhalf fdiv2 C P n (Suc i) (Suc i) K"
  unfolding sim_inv_def
proof (intro conjI allI impI)
  fix a assume "a < n \<and> (a < Suc i \<or> a = Suc i \<and> Suc i < Suc i)"
  with assms(2) have "a < n \<and> (a < i \<or> a = i \<and> i < n)" by auto
  with inv show "K (a, a) = fhalf" unfolding sim_inv_def by blast
next
  fix a b
  from inv show "K (a, b) = K (b, a)" by (simp add: sim_inv_def)
next
  fix a b
  assume "a < b \<and> b < n \<and> (a < Suc i \<or> a = Suc i \<and> b < Suc i) \<and> C b"
  then have "a < b \<and> b < n \<and> (a < i \<or> a = i \<and> b < n) \<and> C b" by auto
  with inv show "K (a, b) = fdiv2 (K (a, P b))" unfolding sim_inv_def by blast
qed

lemma sim_inv_init: "sim_inv fhalf fdiv2 C P n 0 0 (\<lambda>ij. fzero)"
  by (simp add: sim_inv_def)

lemma py_any_iff: "py_any xs \<longleftrightarrow> (\<exists>q \<in> set xs. q \<noteq> 0)"
  by (simp add: py_any_def truthy_def list_ex_iff)

lemma adj_pred_range:
  assumes "set (nodes g) = {0..<int n}" and "wf_graph g" and "p \<in> set (adj_pred g x)"
  shows "0 \<le> p \<and> p < int n"
proof -
  from assms(3) have "(p, x) \<in> set (graph_edges g)"
    by (auto simp: adj_pred_def)
  with assms(1,2) show ?thesis
    by (auto simp: wf_graph_def list_all_iff)
qed

lemma first_parent_less:
  assumes "set (nodes g) = {0..<int n}" and "wf_graph g" and "has_parent g b"
  shows "first_parent g b < b"
proof -
  from assms(3) have "adj_pred g (int b) \<noteq> []" by (auto simp: has_parent_def)
  then have "hd (adj_pred g (int b)) \<in> set (adj_pred g (int b))" by simp
  from adj_pred_range [OF assms(1,2) this] assms(3) show ?thesis
    by (auto simp: has_parent_def first_parent_def nat_less_iff)
qed

lemma sim_cell_step:
  assumes nodes: "set (nodes g) = {0..<int n}" and wf: "wf_graph g"
    and ij: "i < j" and jn: "j < n"
    and inv: "sim_inv fhalf fdiv2 (has_parent g) (first_parent g) n i j K"
  shows "\<exists>K'. sim_cell fdiv2 g n i j K = Inr K' \<and>
              sim_inv fhalf fdiv2 (has_parent g) (first_parent g) n i (Suc j) K'"
proof -
  from nodes jn have jnode: "int j \<in> set (nodes g)" by simp
  have P: "first_parent g b < b" if "has_parent g b" for b
    using first_parent_less [OF nodes wf that] .
  show ?thesis
  proof (cases "py_any (adj_pred g (int j))")
    case False
    then have "\<not> has_parent g j" by (simp add: has_parent_def py_any_iff)
    from sim_inv_skip [OF inv this ij] False jnode show ?thesis
      by (simp add: sim_cell_def graph_predecessors_def)
  next
    case True
    then obtain p rest where pr: "adj_pred g (int j) = p # rest"
      by (cases "adj_pred g (int j)") (auto simp: py_any_iff)
    then have "p \<in> set (adj_pred g (int j))" by simp
    from adj_pred_range [OF nodes wf this] have "0 \<le> p \<and> p < int n" .
    then have idx: "np_index n p = Inr (nat p)" by (simp add: np_index_def)
    let ?v = "fdiv2 (K (i, nat p))"
    have "sim_inv fhalf fdiv2 (has_parent g) (first_parent g) n i (Suc j)
            ((K((i, j) := ?v))((j, i) := ?v))"
      by (rule sim_inv_update [OF inv ij _ P]) (simp_all add: first_parent_def pr)
    with True jnode pr idx show ?thesis
      by (simp add: sim_cell_def graph_predecessors_def Let_def)
  qed
qed

lemma similarity_inv:
  assumes nodes: "set (nodes g) = {0..<int (n_individuals g)}" and wf: "wf_graph g"
  shows "\<exists>K. similarity fzero fhalf fdiv2 g = Inr K \<and>
             sim_inv fhalf fdiv2 (has_parent g) (first_parent g) (n_individuals g)
               (n_individuals g) (n_individuals g) K"
proof -
  let ?n = "n_individuals g"
  let ?I = "\<lambda>i. sim_inv fhalf fdiv2 (has_parent g) (first_parent g) ?n i i"
  have row: "\<exists>K'. for_loop [Suc i..<?n] (sim_cell fdiv2 g ?n i) (K((i, i) := fhalf)) = Inr K' \<and>
                  ?I (Suc i) K'" if "i < ?n" "?I i K" for i K
  proof -
    have "\<exists>K'. for_loop [Suc i..<?n] (sim_cell fdiv2 g ?n i) (K((i, i) := fhalf)) = Inr K' \<and>
            sim_inv fhalf fdiv2 (has_parent g) (first_parent g) ?n i ?n K'"
    proof (rule for_loop_upt [where I = "sim_inv fhalf fdiv2 (has_parent g) (first_parent g) ?n i"
          and a = "Suc i"])
      show "\<exists>s'. sim_cell fdiv2 g ?n i k s = Inr s' \<and>
                 sim_inv fhalf fdiv2 (has_parent g) (first_parent g) ?n i (Suc k) s'"
        if "Suc i \<le> k" "k < ?n" "sim_inv fhalf fdiv2 (has_parent g) (first_parent g) ?n i k s"
        for k s
        using sim_cell_step [OF nodes wf _ that(2,3)] that(1) by simp
      show "Suc i \<le> ?n" using that(1) by simp
      show "sim_inv fhalf fdiv2 (has_parent g) (first_parent g) ?n i (Suc i) (K((i, i) := fhalf))"
        using that(2) first_parent_less [OF nodes wf] by (rule sim_inv_row_start)
    qed
    then obtain K' where
      K': "for_loop [Suc i..<?n] (sim_cell fdiv2 g ?n i) (K((i, i) := fhalf)) = Inr K'"
          "sim_inv fhalf fdiv2 (has_parent g) (first_parent g) ?n i ?n K'" by blast
    from sim_inv_row_end [OF K'(2) that(1)] K'(1) show ?thesis by blast
  qed
  have "\<exists>K. for_loop [0..<?n]
          (\<lambda>i K. for_loop [Suc i..<?n] (sim_cell fdiv2 g ?n i) (K((i, i) := fhalf)))
          (\<lambda>ij. fzero) = Inr K \<and> ?I ?n K"
    by (rule for_loop_upt [where I = ?I]) (use row sim_inv_init in auto)
  then show ?thesis by (simp add: similarity_def Let_def)
qed

text \<open>
  What the two loops establish on every graph whose \<open>n\<close> nodes are exactly the integers
  \<open>0 .. n-1\<close>: no error is raised, the diagonal is \<open>0.5\<close>, the matrix is symmetric, and
  \<open>K[i,j] = K[i,p] / 2\<close> for every pair \<open>i < j\<close> for which the guard \<open>any(...)\<close> holds and
  the first predecessor \<open>p\<close> of \<open>j\<close> has a smaller identifier than \<open>j\<close>.
\<close>

lemma similarity_halving:
  assumes "wf_graph g" and "set (nodes g) = {0..<int (n_individuals g)}"
  shows "\<exists>K. similarity fzero fhalf fdiv2 g = Inr K \<and>
           (\<forall>i < n_individuals g. K (i, i) = fhalf) \<and>
           (\<forall>i j. K (i, j) = K (j, i)) \<and>
           (\<forall>i j. i < j \<and> j < n_individuals g \<and>
                  (\<exists>q \<in> set (adj_pred g (int j)). q \<noteq> 0) \<and>
                  hd (adj_pred g (int j)) < int j \<longrightarrow>
                  K (i, j) = fdiv2 (K (i, nat (hd (adj_pred g (int j))))))"
proof -
  let ?n = "n_individuals g"
  from similarity_inv [OF assms(2,1), of fzero fhalf fdiv2] obtain K where
    K: "similarity fzero fhalf fdiv2 g = Inr K"
    and inv: "sim_inv fhalf fdiv2 (has_parent g) (first_parent g) ?n ?n ?n K" by blast
  have d: "K (i, i) = fhalf" if "i < ?n" for i
    using inv that unfolding sim_inv_def by blast
  have s: "K (i, j) = K (j, i)" for i j
    using inv unfolding sim_inv_def by blast
  have h: "K (i, j) = fdiv2 (K (i, nat (hd (adj_pred g (int j)))))"
    if "i < j" "j < ?n" "\<exists>q \<in> set (adj_pred g (int j)). q \<noteq> 0" "hd (adj_pred g (int j)) < int j"
    for i j
  proof -
    from that have "i < j \<and> j < ?n \<and> (i < ?n \<or> i = ?n \<and> j < ?n) \<and> has_parent g j"
      by (simp add: has_parent_def)
    with inv have "K (i, j) = fdiv2 (K (i, first_parent g j))"
      unfolding sim_inv_def by blast
    then show ?thesis by (simp add: first_parent_def)
  qed
  from K d s h show ?thesis by blast
qed

text \<open>
  C9. On the graph with the nodes \<open>0, 1\<close> and the single edge \<open>0 \<rightarrow> 1\<close>, node \<open>1\<close> has the
  predecessor \<open>0\<close>, whose identifier is smaller, so the claim requires
  \<open>K[0,1] = K[0,0] / 2\<close>. The guard \<open>any(self.graph.predecessors(1))\<close> tests the
  truthiness of the identifier \<open>0\<close> and fails, so the cell is never set: the code
  returns \<open>K[0,0] = 0.5\<close> and \<open>K[0,1] = K[1,0] = 0.0\<close>.
\<close>

theorem similarity_edge_from_zero:
  "wf_graph edge_from_zero \<and>
   set (nodes edge_from_zero) = {0..<int (n_individuals edge_from_zero)} \<and>
   adj_pred edge_from_zero 1 = [0] \<and>
   (\<exists>K. similarity fzero fhalf fdiv2 edge_from_zero = Inr K \<and>
        K (0, 0) = fhalf \<and> K (0, 1) = fzero \<and> K (1, 0) = fzero) \<and>
   (\<exists>K. similarity (0::rat) (1 / 2) (\<lambda>x. x / 2) edge_from_zero = Inr K \<and>
        K (0, 1) \<noteq> K (0, 0) / 2)"
proof -
  have w: "wf_graph edge_from_zero"
    by (simp add: wf_graph_def edge_from_zero_def nodes_def)
  have n: "n_individuals edge_from_zero = 2"
    by (simp add: n_individuals_def edge_from_zero_def nodes_def)
  have nd: "set (nodes edge_from_zero) = {0..<int (n_individuals edge_from_zero)}"
    unfolding n by (auto simp: edge_from_zero_def nodes_def)
  have a: "adj_pred edge_from_zero 1 = [0]"
    by (simp add: edge_from_zero_def adj_pred_def)
  have u: "[0..<2] = [0, Suc 0]" "[Suc 0..<2] = [Suc 0]" "[Suc (Suc 0)..<2] = []"
    by (simp_all add: upt_conv_Cons numeral_2_eq_2)
  have c: "sim_cell fdiv2 edge_from_zero 2 0 (Suc 0) K = Inr K" for fdiv2 :: "'b \<Rightarrow> 'b" and K
    using a by (simp add: sim_cell_def graph_predecessors_def edge_from_zero_def nodes_def
        py_any_def truthy_def)
  have s: "similarity fzero fhalf fdiv2 edge_from_zero =
      Inr (((\<lambda>ij. fzero)((0, 0) := fhalf))((Suc 0, Suc 0) := fhalf))"
    for fzero fhalf :: 'b and fdiv2
    by (simp add: similarity_def n u c)
  have g: "\<exists>K. similarity fzero fhalf fdiv2 edge_from_zero = Inr K \<and>
        K (0, 0) = fhalf \<and> K (0, 1) = fzero \<and> K (1, 0) = fzero"
    unfolding s by simp
  have r: "\<exists>K. similarity (0::rat) (1 / 2) (\<lambda>x. x / 2) edge_from_zero = Inr K \<and>
        K (0, 1) \<noteq> K (0, 0) / 2"
    unfolding s by simp
  from w nd a g r show ?thesis by blast
qed

end
